theory Spec2Isabelle
  imports Main "HOL-Library.Word"
begin

section \<open>JavaScript strings\<close>

text \<open>
  A JavaScript string is a sequence of UTF-16 code units, and \<open>length\<close>, \<open>substring\<close>,
  \<open>lastIndexOf\<close> and a regular expression without the \<open>u\<close> flag all work on code units.
  A code unit is modelled by its number (in JavaScript below 65536; nothing here depends
  on the bound). \<open>js\<close> turns an ASCII literal into such a string.
\<close>

type_synonym jschar = nat
type_synonym jsstring = "jschar list"

definition js :: "string \<Rightarrow> jsstring" where
  "js s = map of_char s"

text \<open>
  The class \<open>\s\<close> of a regular expression and the characters removed by \<open>trim()\<close> are the
  same set: WhiteSpace and LineTerminator of ECMAScript (tab, LF, VT, FF, CR, space,
  U+00A0, U+1680, U+2000 to U+200A, U+2028, U+2029, U+202F, U+205F, U+3000, U+FEFF).
\<close>

definition isSpace :: "jschar \<Rightarrow> bool" where
  "isSpace c \<longleftrightarrow>
     c \<in> set [9, 10, 11, 12, 13, 32, 160, 5760, 8232, 8233, 8239, 8287, 12288, 65279]
     \<or> (8192 \<le> c \<and> c \<le> 8202)"

definition trim :: "jsstring \<Rightarrow> jsstring" where
  "trim s = rev (dropWhile isSpace (rev (dropWhile isSpace s)))"

text \<open>\<open>s.lastIndexOf(pat, fromIndex)\<close>: the largest index \<open>k\<close>, at most \<open>fromIndex\<close>, at
  which \<open>pat\<close> occurs in \<open>s\<close>, or \<open>-1\<close>.\<close>

fun lastIndexFrom :: "jsstring \<Rightarrow> jsstring \<Rightarrow> nat \<Rightarrow> int" where
  "lastIndexFrom s pat 0 = (if take (length pat) s = pat then 0 else -1)"
| "lastIndexFrom s pat (Suc k) =
     (if take (length pat) (drop (Suc k) s) = pat then int (Suc k)
      else lastIndexFrom s pat k)"

definition lastIndexOf :: "jsstring \<Rightarrow> jsstring \<Rightarrow> nat \<Rightarrow> int" where
  "lastIndexOf s pat fromIndex =
     (if length s < length pat then -1
      else lastIndexFrom s pat (min fromIndex (length s - length pat)))"

section \<open>The TTS chunker (createOptimalTTSChunks)\<close>

subsection \<open>Splitting into sentences\<close>

text \<open>
  \<open>text.split(/(?<=[.!?;])\s+(?=[A-Z])/g)\<close>. The expression matches at a position when the
  code unit before it is one of \<open>.!?;\<close>, at least one white space follows, and the code
  unit after the white space is in \<open>A-Z\<close>. \<open>\s+\<close> is greedy, and giving back white space
  cannot help the lookahead (the next code unit would be white space), so a match always
  takes the whole run. \<open>boundaryAt prev s\<close> is the match at the position where \<open>prev\<close> is
  the code unit before it and \<open>s\<close> the rest of the text: it returns the text after the match.
\<close>

definition isTerminator :: "jschar \<Rightarrow> bool" where
  "isTerminator c \<longleftrightarrow> c \<in> set (js ''.!?;'')"

definition isCapital :: "jschar \<Rightarrow> bool" where
  "isCapital c \<longleftrightarrow> of_char CHR ''A'' \<le> c \<and> c \<le> of_char CHR ''Z''"

definition boundaryAt :: "jschar option \<Rightarrow> jsstring \<Rightarrow> jsstring option" where
  "boundaryAt prev s =
     (case prev of
        None \<Rightarrow> None
      | Some p \<Rightarrow>
          if isTerminator p \<and> takeWhile isSpace s \<noteq> [] then
            (case dropWhile isSpace s of
               [] \<Rightarrow> None
             | c # r \<Rightarrow> if isCapital c then Some (c # r) else None)
          else None)"

text \<open>
  The loop of \<open>split\<close>: \<open>piece\<close> is the text since the last match, the third argument the
  text still to scan. Where the expression matches, the piece is emitted and scanning goes
  on behind the match; elsewhere the position advances by one code unit. The text left at
  the end is the last piece.
\<close>

function splitSentences :: "jschar option \<Rightarrow> jsstring \<Rightarrow> jsstring \<Rightarrow> jsstring list" where
  "splitSentences prev piece [] = [piece]"
| "splitSentences prev piece (c # s) =
     (case boundaryAt prev (c # s) of
        Some r \<Rightarrow> piece # splitSentences (Some (last (takeWhile isSpace (c # s)))) [] r
      | None \<Rightarrow> splitSentences (Some c) (piece @ [c]) s)"
  by pat_completeness auto
termination
proof (relation "measure (\<lambda>(prev, piece, s). length s)")
  fix prev :: "jschar option" and piece :: jsstring and c :: jschar and s r :: jsstring
  assume "boundaryAt prev (c # s) = Some r"
  then have r: "r = dropWhile isSpace (c # s)" and t: "takeWhile isSpace (c # s) \<noteq> []"
    by (auto simp: boundaryAt_def split: option.splits if_splits list.splits)
  have "length (takeWhile isSpace (c # s)) + length r = length (c # s)"
    unfolding r by (metis length_append takeWhile_dropWhile_id)
  with t have "length r < length (c # s)"
    by (cases "takeWhile isSpace (c # s)") auto
  then show "((Some (last (takeWhile isSpace (c # s))), [], r), prev, piece, c # s)
       \<in> measure (\<lambda>(prev, piece, s). length s)"
    by simp
qed auto

subsection \<open>Grouping sentences\<close>

text \<open>
  The \<open>for\<close> loop over the sentences: \<open>chunks\<close> and \<open>currentChunk\<close> are the loop's variables,
  the last argument the sentences from index \<open>i\<close> on.
\<close>

fun groupSentences :: "nat \<Rightarrow> jsstring list \<Rightarrow> jsstring \<Rightarrow> jsstring list \<Rightarrow> jsstring list" where
  "groupSentences maxChunkLength chunks currentChunk [] = chunks"
| "groupSentences maxChunkLength chunks currentChunk (sentence # rest) =
     (let potentialChunk =
            (if currentChunk \<noteq> [] then currentChunk @ js '' '' @ sentence else sentence);
          seal = (length potentialChunk > maxChunkLength \<and> length currentChunk > 0);
          chunks1 = (if seal then chunks @ [trim currentChunk] else chunks);
          currentChunk1 = (if seal then sentence else potentialChunk);
          chunks2 = (if rest = [] then chunks1 @ [trim currentChunk1] else chunks1)
      in groupSentences maxChunkLength chunks2 currentChunk1 rest)"

subsection \<open>Splitting a long chunk (splitLongChunk)\<close>

definition breakPoints :: "jsstring \<Rightarrow> nat \<Rightarrow> int list" where
  "breakPoints remaining maxLength =
     [lastIndexOf remaining (js '', '') maxLength,
      lastIndexOf remaining (js '' and '') maxLength,
      lastIndexOf remaining (js '' or '') maxLength,
      lastIndexOf remaining (js '' but '') maxLength,
      lastIndexOf remaining (js '' - '') maxLength,
      lastIndexOf remaining (js '' '') maxLength]"

text \<open>
  The \<open>while\<close> loop. With \<open>maxLength = 0\<close> the forced split pushes an empty string and
  leaves \<open>remaining\<close> as it is, so the loop does not end: the result \<open>None\<close> stands for a
  call that never returns.
\<close>

partial_function (option) splitLoop :: "nat \<Rightarrow> jsstring list \<Rightarrow> jsstring \<Rightarrow> jsstring list option" where
  "splitLoop maxLength chunks remaining =
     (if length remaining > maxLength then
        (case find (\<lambda>bp. 2 * bp > int maxLength) (breakPoints remaining maxLength) of
           Some breakPoint \<Rightarrow>
             if breakPoint \<noteq> 0 \<and> breakPoint > 0 then
               splitLoop maxLength
                 (chunks @ [trim (take (nat (breakPoint + 1)) remaining)])
                 (trim (drop (nat (breakPoint + 1)) remaining))
             else
               splitLoop maxLength
                 (chunks @ [trim (take maxLength remaining)])
                 (trim (drop maxLength remaining))
         | None \<Rightarrow>
             splitLoop maxLength
               (chunks @ [trim (take maxLength remaining)])
               (trim (drop maxLength remaining)))
      else Some (if length remaining > 0 then chunks @ [remaining] else chunks))"

declare splitLoop.simps [code]

definition splitLongChunk :: "jsstring \<Rightarrow> nat \<Rightarrow> jsstring list option" where
  "splitLongChunk text maxLength = splitLoop maxLength [] text"

subsection \<open>createOptimalTTSChunks\<close>

text \<open>The final \<open>flatMap\<close>: a chunk longer than the maximum is split further.\<close>

fun flatMapChunks :: "nat \<Rightarrow> jsstring list \<Rightarrow> jsstring list option" where
  "flatMapChunks maxChunkLength [] = Some []"
| "flatMapChunks maxChunkLength (chunk # rest) =
     (case (if length chunk > maxChunkLength then splitLongChunk chunk maxChunkLength
            else Some [chunk]) of
        None \<Rightarrow> None
      | Some parts \<Rightarrow>
          (case flatMapChunks maxChunkLength rest of
             None \<Rightarrow> None
           | Some more \<Rightarrow> Some (parts @ more)))"

definition sentencesOf :: "jsstring \<Rightarrow> jsstring list" where
  "sentencesOf text = filter (\<lambda>s. length s > 0) (map trim (splitSentences None [] text))"

definition createOptimalTTSChunks :: "jsstring \<Rightarrow> nat \<Rightarrow> jsstring list option" where
  "createOptimalTTSChunks text maxChunkLength =
     (if text = [] \<or> length (trim text) = 0 then Some []
      else if length (sentencesOf text) = 0 then Some [trim text]
      else flatMapChunks maxChunkLength
             (filter (\<lambda>chunk. length chunk > 0)
                (groupSentences maxChunkLength [] [] (sentencesOf text))))"


section \<open>The session manager (WebSocket message handler)\<close>

text \<open>
  The per-connection variables \<open>audioChunks\<close>, \<open>inProgress\<close> and \<open>currentSessionId\<close>
  (\<open>null\<close> is \<open>None\<close>).
\<close>

record session =
  audioChunks :: "jsstring list"
  inProgress :: bool
  currentSessionId :: "jsstring option"

text \<open>A parsed message: its \<open>type\<close>, and for a chunk message the optional field \<open>chunk\<close>.\<close>

datatype WebSocketMessage =
    UserAudioStart
  | UserAudioChunk "jsstring option"
  | UserAudioEnd
  | OtherMessage

type_synonym bytes = "8 word list"

text \<open>What the server sends: \<open>{type: 'ai_audio', chunk, done}\<close> and \<open>{type: 'error', message}\<close>.\<close>

datatype ServerMessage =
    AiAudio jsstring bool
  | ErrorMessage jsstring

text \<open>
  The calls the handler makes to the outside, in the order it makes them: the file written,
  the transcription, the chat completion, a speech request issued (\<open>SpeechCreate\<close>) and its
  audio received (\<open>SpeechAudio\<close>), and a message sent on the socket.
\<close>

datatype effect =
    WriteFile jsstring bytes
  | Transcribe jsstring
  | ChatCreate jsstring
  | SpeechCreate jsstring
  | SpeechAudio bytes
  | WsSend ServerMessage

text \<open>
  The library and service calls are parameters of the handler. A call that throws gives the
  message of its error: \<open>Some\<close> for \<open>writeFile\<close>, \<open>Inl\<close> for the others. \<open>chatStream\<close>
  gives the \<open>content\<close> of every streamed delta (\<open>None\<close> where it is absent), \<open>speech\<close> takes
  the number of the call within the turn and the text.
\<close>

record services =
  uuid :: jsstring
  fromBase64 :: "jsstring \<Rightarrow> bytes"
  toBase64 :: "bytes \<Rightarrow> jsstring"
  writeFile :: "jsstring \<Rightarrow> bytes \<Rightarrow> jsstring option"
  transcribe :: "jsstring \<Rightarrow> jsstring + jsstring"
  chatStream :: "jsstring \<Rightarrow> jsstring + jsstring option list"
  speech :: "nat \<Rightarrow> jsstring \<Rightarrow> jsstring + bytes"

text \<open>The loop over the chunks: \<open>n\<close> is \<open>chunks.length\<close>, \<open>i\<close> the index of the first chunk
  of the list. The result is the effects and the error thrown, if any.\<close>

fun ttsLoop :: "services \<Rightarrow> nat \<Rightarrow> nat \<Rightarrow> jsstring list \<Rightarrow> effect list \<times> jsstring option" where
  "ttsLoop sv n i [] = ([], None)"
| "ttsLoop sv n i (chunk # rest) =
     (let isLast = (i = n - 1) in
      case speech sv i chunk of
        Inl err \<Rightarrow> ([SpeechCreate chunk], Some err)
      | Inr audioBuffer \<Rightarrow>
          (case ttsLoop sv n (Suc i) rest of
             (effects, thrown) \<Rightarrow>
               (SpeechCreate chunk # SpeechAudio audioBuffer
                  # WsSend (AiAudio (toBase64 sv audioBuffer) isLast) # effects,
                thrown)))"

text \<open>\<open>chunk.choices[0]?.delta?.content || ''\<close>\<close>

definition deltaContent :: "jsstring option \<Rightarrow> jsstring" where
  "deltaContent content = (case content of None \<Rightarrow> [] | Some d \<Rightarrow> d)"

text \<open>
  The \<open>try\<close> block from the write of the file on: the effects, and the error thrown if a
  call failed. \<open>None\<close> stands for a block that never ends (the chunker not returning).
\<close>

definition turnPipeline :: "services \<Rightarrow> jsstring \<Rightarrow> bytes \<Rightarrow> (effect list \<times> jsstring option) option" where
  "turnPipeline sv filePath completeBuffer =
     (case writeFile sv filePath completeBuffer of
        Some err \<Rightarrow> Some ([WriteFile filePath completeBuffer], Some err)
      | None \<Rightarrow>
          (case transcribe sv filePath of
             Inl err \<Rightarrow> Some ([WriteFile filePath completeBuffer, Transcribe filePath], Some err)
           | Inr transcript \<Rightarrow>
               (case chatStream sv transcript of
                  Inl err \<Rightarrow>
                    Some ([WriteFile filePath completeBuffer, Transcribe filePath,
                           ChatCreate transcript], Some err)
                | Inr deltas \<Rightarrow>
                    (let finalResponse = concat (map deltaContent deltas) in
                     case createOptimalTTSChunks finalResponse 50 of
                       None \<Rightarrow> None
                     | Some chunks \<Rightarrow>
                         (case ttsLoop sv (length chunks) 0 chunks of
                            (effects, thrown) \<Rightarrow>
                              Some ([WriteFile filePath completeBuffer, Transcribe filePath,
                                     ChatCreate transcript] @ effects, thrown))))))"

definition filePathOf :: "jsstring \<Rightarrow> jsstring" where
  "filePathOf fileId = js ''tmp/'' @ fileId @ js ''.webm''"

definition completeBuffer :: "services \<Rightarrow> session \<Rightarrow> bytes" where
  "completeBuffer sv s = concat (map (fromBase64 sv) (audioChunks s))"

definition finallyBlock :: "session \<Rightarrow> session" where
  "finallyBlock s = s\<lparr>audioChunks := [], inProgress := False, currentSessionId := None\<rparr>"

text \<open>
  The handler of a \<open>user_audio_end\<close> message, run to its end. The \<open>return\<close> for a buffer
  under 1000 bytes is inside the \<open>try\<close>, so the \<open>finally\<close> block runs after it; the
  \<open>return\<close> for no chunks is before the \<open>try\<close>.
\<close>

definition onUserAudioEnd :: "services \<Rightarrow> session \<Rightarrow> (session \<times> effect list) option" where
  "onUserAudioEnd sv s =
     (case currentSessionId s of
        None \<Rightarrow> Some (s, [])
      | Some fileId \<Rightarrow>
          if fileId = [] then Some (s, [])
          else if inProgress s then Some (s, [])
          else if length (audioChunks s) = 0 then
            Some (s\<lparr>inProgress := False, currentSessionId := None\<rparr>, [])
          else if length (completeBuffer sv s) < 1000 then
            Some (finallyBlock (s\<lparr>inProgress := False, currentSessionId := None\<rparr>), [])
          else
            (case turnPipeline sv (filePathOf fileId) (completeBuffer sv s) of
               None \<Rightarrow> None
             | Some (effects, thrown) \<Rightarrow>
                 Some (finallyBlock (s\<lparr>inProgress := True\<rparr>),
                       effects @ (case thrown of
                                    None \<Rightarrow> []
                                  | Some err \<Rightarrow> [WsSend (ErrorMessage err)]))))"

text \<open>The handler of \<open>ws.on('message')\<close>: the new state and the effects, \<open>None\<close> if it never
  returns. A session id is tested for truthiness (\<open>null\<close> and the empty string are falsy),
  and so is the field \<open>chunk\<close>.\<close>

definition onMessage :: "services \<Rightarrow> session \<Rightarrow> WebSocketMessage \<Rightarrow> (session \<times> effect list) option" where
  "onMessage sv s msg =
     (case msg of
        UserAudioStart \<Rightarrow>
          if inProgress s then Some (s, [])
          else Some (s\<lparr>currentSessionId := Some (uuid sv), audioChunks := [],
                        inProgress := False\<rparr>, [])
      | UserAudioChunk chunk \<Rightarrow>
          (case currentSessionId s of
             None \<Rightarrow> Some (s, [])
           | Some sessionId \<Rightarrow>
               if sessionId = [] then Some (s, [])
               else (case chunk of
                       None \<Rightarrow> Some (s, [])
                     | Some c \<Rightarrow>
                         if c = [] then Some (s, [])
                         else Some (s\<lparr>audioChunks := audioChunks s @ [c]\<rparr>, [])))
      | UserAudioEnd \<Rightarrow> onUserAudioEnd sv s
      | OtherMessage \<Rightarrow> Some (s, []))"

text \<open>Messages handled one after the other, each handler run to its end.\<close>

fun onMessages :: "services \<Rightarrow> session \<Rightarrow> WebSocketMessage list \<Rightarrow> (session \<times> effect list) option" where
  "onMessages sv s [] = Some (s, [])"
| "onMessages sv s (msg # msgs) =
     (case onMessage sv s msg of
        None \<Rightarrow> None
      | Some (s1, effects1) \<Rightarrow>
          (case onMessages sv s1 msgs of
             None \<Rightarrow> None
           | Some (s2, effects2) \<Rightarrow> Some (s2, effects1 @ effects2)))"

text \<open>The state \<open>Idle\<close>: no chunk, no session id, nothing in progress.\<close>

definition idle :: session where
  "idle = \<lparr>audioChunks = [], inProgress = False, currentSessionId = None\<rparr>"


section \<open>The playback queue (usePlayer)\<close>

text \<open>
  The refs of the hook (\<open>isPlaying\<close>, \<open>audioQueue\<close>, \<open>currentSource\<close>; a source node is
  named by the number of its creation), and what the browser still owes the hook:
  \<open>pending\<close>, the calls of \<open>processNextAudio\<close> suspended at an \<open>await\<close> (by their chunk),
  and \<open>live\<close>, the source nodes that were started and whose \<open>ended\<close> event has not been
  dispatched yet. \<open>trace\<close> records what the hook does.
\<close>

datatype action =
    OnPlaybackStart
  | OnPlaybackEnd
  | Shift jsstring
  | SourceStart nat jsstring
  | SourceStop nat
  | SourceEnded nat jsstring
  | DecodeFailure jsstring

record player =
  isPlaying :: bool
  audioQueue :: "jsstring list"
  currentSource :: "nat option"
  pending :: "jsstring list"
  live :: "(nat \<times> jsstring) list"
  created :: nat
  trace :: "action list"

definition initialPlayer :: player where
  "initialPlayer = \<lparr>isPlaying = False, audioQueue = [], currentSource = None,
                     pending = [], live = [], created = 0, trace = []\<rparr>"

text \<open>\<open>processNextAudio\<close> up to its first \<open>await\<close>: with an empty queue it ends the
  playback, otherwise it takes the first chunk and suspends.\<close>

definition processNextAudio :: "player \<Rightarrow> player" where
  "processNextAudio p =
     (case audioQueue p of
        [] \<Rightarrow> p\<lparr>isPlaying := False, trace := trace p @ [OnPlaybackEnd]\<rparr>
      | nextChunk # rest \<Rightarrow>
          p\<lparr>audioQueue := rest, pending := pending p @ [nextChunk],
            trace := trace p @ [Shift nextChunk]\<rparr>)"

definition queueAudio :: "jsstring \<Rightarrow> player \<Rightarrow> player" where
  "queueAudio base64 p =
     (let p1 = p\<lparr>audioQueue := audioQueue p @ [base64]\<rparr> in
      if \<not> isPlaying p1 then
        processNextAudio (p1\<lparr>isPlaying := True, trace := trace p1 @ [OnPlaybackStart]\<rparr>)
      else p1)"

text \<open>\<open>stopPlayback\<close>. \<open>source.stop()\<close> does not remove the node from \<open>live\<close>: the browser
  dispatches \<open>ended\<close> to a stopped node as well, and its \<open>onended\<close> handler is still set.\<close>

definition stopPlayback :: "player \<Rightarrow> player" where
  "stopPlayback p =
     (let p1 = (case currentSource p of
                  None \<Rightarrow> p
                | Some source \<Rightarrow> p\<lparr>currentSource := None, trace := trace p @ [SourceStop source]\<rparr>);
          p2 = p1\<lparr>audioQueue := []\<rparr>
      in if isPlaying p2 then p2\<lparr>isPlaying := False, trace := trace p2 @ [OnPlaybackEnd]\<rparr>
         else p2)"

text \<open>The rest of \<open>processNextAudio\<close> for the suspended call number \<open>k\<close>: the audio was
  decoded and the source is created and started (\<open>decodeResolved\<close>), or the audio context
  is not available or something in the \<open>try\<close> block threw, and the next chunk is tried
  (\<open>decodeRejected\<close>).\<close>

definition decodeResolved :: "nat \<Rightarrow> player \<Rightarrow> player" where
  "decodeResolved k p =
     (if k < length (pending p) then
        p\<lparr>pending := take k (pending p) @ drop (Suc k) (pending p),
          currentSource := Some (created p),
          live := live p @ [(created p, pending p ! k)],
          created := Suc (created p),
          trace := trace p @ [SourceStart (created p) (pending p ! k)]\<rparr>
      else p)"

definition decodeRejected :: "nat \<Rightarrow> player \<Rightarrow> player" where
  "decodeRejected k p =
     (if k < length (pending p) then
        processNextAudio
          (p\<lparr>pending := take k (pending p) @ drop (Suc k) (pending p),
             trace := trace p @ [DecodeFailure (pending p ! k)]\<rparr>)
      else p)"

text \<open>The \<open>onended\<close> handler of source \<open>n\<close>.\<close>

definition onended :: "nat \<Rightarrow> player \<Rightarrow> player" where
  "onended n p =
     (case map_of (live p) n of
        None \<Rightarrow> p
      | Some c \<Rightarrow>
          processNextAudio
            (p\<lparr>live := filter (\<lambda>(m, _). m \<noteq> n) (live p),
               currentSource := None,
               trace := trace p @ [SourceEnded n c]\<rparr>))"

text \<open>What happens to the hook: a call by the component, or a callback by the browser.\<close>

datatype event =
    QueueAudio jsstring
  | StopPlayback
  | DecodeResolved nat
  | DecodeRejected nat
  | Ended nat

fun step :: "player \<Rightarrow> event \<Rightarrow> player" where
  "step p (QueueAudio base64) = queueAudio base64 p"
| "step p StopPlayback = stopPlayback p"
| "step p (DecodeResolved k) = decodeResolved k p"
| "step p (DecodeRejected k) = decodeRejected k p"
| "step p (Ended n) = onended n p"

definition run :: "player \<Rightarrow> event list \<Rightarrow> player" where
  "run p events = foldl step p events"

section \<open>Notions of the specification\<close>

text \<open>The text without its white space.\<close>

definition nonSpace :: "jsstring \<Rightarrow> jsstring" where
  "nonSpace s = filter (\<lambda>c. \<not> isSpace c) s"

text \<open>White space collapsed: every run of white space replaced by one space.\<close>

function spec_collapse :: "jsstring \<Rightarrow> jsstring" where
  "spec_collapse [] = []"
| "spec_collapse (c # s) =
     (if isSpace c then 32 # spec_collapse (dropWhile isSpace s) else c # spec_collapse s)"
  by pat_completeness auto
termination
  by (relation "measure length") (auto simp: less_Suc_eq_le length_dropWhile_le)

text \<open>The segments joined by single spaces.\<close>

fun spec_join :: "jsstring list \<Rightarrow> jsstring" where
  "spec_join [] = []"
| "spec_join [s] = s"
| "spec_join (s # t # ss) = s @ 32 # spec_join (t # ss)"

text \<open>The chunks queued by a list of events, and the chunks taken from the queue in a
  trace, both in order.\<close>

fun queued :: "event list \<Rightarrow> jsstring list" where
  "queued [] = []"
| "queued (QueueAudio c # es) = c # queued es"
| "queued (_ # es) = queued es"

fun shifted :: "action list \<Rightarrow> jsstring list" where
  "shifted [] = []"
| "shifted (Shift c # as) = c # shifted as"
| "shifted (_ # as) = shifted as"

text \<open>
  One segment at a time: a trace is followed with the segment in flight, which is being
  decoded or is playing. A segment is taken from the queue only when none is in flight,
  it starts playing only while it is being decoded, and it leaves when its playback has
  ended or its decoding has failed. \<open>None\<close> is a trace that breaks this.
\<close>

datatype flight = Nothing | Decoding jsstring | Playing jsstring

fun follow :: "flight option \<Rightarrow> action \<Rightarrow> flight option" where
  "follow (Some Nothing) (Shift c) = Some (Decoding c)"
| "follow _ (Shift c) = None"
| "follow (Some (Decoding d)) (SourceStart n c) = (if c = d then Some (Playing c) else None)"
| "follow _ (SourceStart n c) = None"
| "follow (Some (Playing d)) (SourceEnded n c) = (if c = d then Some Nothing else None)"
| "follow _ (SourceEnded n c) = None"
| "follow (Some (Decoding d)) (DecodeFailure c) = (if c = d then Some Nothing else None)"
| "follow _ (DecodeFailure c) = None"
| "follow f _ = f"

definition oneAtATime :: "action list \<Rightarrow> bool" where
  "oneAtATime as \<longleftrightarrow> foldl follow (Some Nothing) as \<noteq> None"


text \<open>
  The segments put together again, with the given texts between them, and what these
  texts may be: between two segments one space, or nothing after a segment that has
  exactly the maximum length (the place of a forced split).
\<close>

fun rejoin :: "jsstring list \<Rightarrow> jsstring list \<Rightarrow> jsstring" where
  "rejoin [] seps = []"
| "rejoin [s] seps = s"
| "rejoin (s # t # ss) [] = s @ rejoin (t # ss) []"
| "rejoin (s # t # ss) (sep # seps) = s @ sep @ rejoin (t # ss) seps"

fun separators :: "nat \<Rightarrow> jsstring list \<Rightarrow> jsstring list \<Rightarrow> bool" where
  "separators m [] seps = (seps = [])"
| "separators m [s] seps = (seps = [])"
| "separators m (s # t # ss) [] = False"
| "separators m (s # t # ss) (sep # seps) =
     ((sep = js '' '' \<or> (sep = [] \<and> length s = m)) \<and> separators m (t # ss) seps)"

text \<open>
  For the proofs: white space collapsed by one pass with a flag (the code unit before was
  white space), the collapsed form of the trimmed text, two collapsed forms joined by a
  space where neither is empty, a text without white space at its ends, and a cut with
  white space right before or right after it.
\<close>

fun col :: "bool \<Rightarrow> jsstring \<Rightarrow> jsstring" where
  "col p [] = []"
| "col p (c # s) =
     (if isSpace c then (if p then col True s else 32 # col True s) else c # col False s)"

definition tcol :: "jsstring \<Rightarrow> jsstring" where
  "tcol s = col False (trim s)"

definition tjoin :: "jsstring \<Rightarrow> jsstring \<Rightarrow> jsstring" where
  "tjoin x y = (if x = [] then y else if y = [] then x else x @ 32 # y)"

fun tj :: "jsstring list \<Rightarrow> jsstring" where
  "tj [] = []"
| "tj (x # xs) = tjoin x (tj xs)"

definition trimmed :: "jsstring \<Rightarrow> bool" where
  "trimmed s \<longleftrightarrow> s = [] \<or> (\<not> isSpace (hd s) \<and> \<not> isSpace (last s))"

definition adjacent :: "nat \<Rightarrow> jsstring \<Rightarrow> bool" where
  "adjacent k r \<longleftrightarrow>
     (take k r \<noteq> [] \<and> isSpace (last (take k r))) \<or> (drop k r \<noteq> [] \<and> isSpace (hd (drop k r)))"

text \<open>
  The states of the hook between two events when \<open>stopPlayback\<close> is not called: idle
  with an empty queue, or playing with exactly one segment in flight, and the trace
  followed so far agrees.
\<close>

definition consistent :: "player \<Rightarrow> bool" where
  "consistent p \<longleftrightarrow>
     (pending p = [] \<and> live p = [] \<and> \<not> isPlaying p \<and> audioQueue p = []
        \<and> foldl follow (Some Nothing) (trace p) = Some Nothing)
     \<or> (\<exists>c. pending p = [c] \<and> live p = [] \<and> isPlaying p
            \<and> foldl follow (Some Nothing) (trace p) = Some (Decoding c))
     \<or> (\<exists>n c. pending p = [] \<and> live p = [(n, c)] \<and> isPlaying p
            \<and> foldl follow (Some Nothing) (trace p) = Some (Playing c))"

section \<open>Example inputs\<close>

definition summaryReply :: jsstring where
  "summaryReply =
     js ''Sure thing, here is a summary of what we discussed, and I will send the notes later today''"

definition linkReply :: jsstring where
  "linkReply =
     js ''Please visit https://www.example.com/docs/getting-started/installation-guide-for-linux-and-macos right now''"

definition linkSegments :: "jsstring list" where
  "linkSegments =
     [js ''Please visit https://www.example.com/docs/getting-'',
      js ''started/installation-guide-for-linux-and-macos'',
      js ''right now'']"

definition apology :: jsstring where
  "apology = js ''I am sorry, I did not catch that.''"

definition apologyDeltas :: "jsstring option list" where
  "apologyDeltas =
     [Some (js ''I am sorry, I did not catch that. I am sorry, ''), None,
      Some (js ''I did not catch that. I am sorry, I did not catch that.'')]"

definition apologyReply :: jsstring where
  "apologyReply =
     js ''I am sorry, I did not catch that. I am sorry, I did not catch that. I am sorry, I did not catch that.''"

text \<open>
  Services that always succeed: audio is three zero bytes, a chunk of base64 text decodes
  to three zero bytes for every four characters, and zero bytes encode to the letter A.
\<close>

definition exampleServices :: services where
  "exampleServices =
     \<lparr>uuid = js ''3b241101-e2bb-4255-8caf-4136c566a962'',
      fromBase64 = (\<lambda>c. replicate (3 * (length c div 4)) 0),
      toBase64 = (\<lambda>b. replicate (4 * ((length b + 2) div 3)) (of_char CHR ''A'')),
      writeFile = (\<lambda>path buffer. None),
      transcribe = (\<lambda>path. Inr (js ''hello'')),
      chatStream = (\<lambda>transcript. Inr apologyDeltas),
      speech = (\<lambda>i segment. Inr [0, 0, 0])\<rparr>"

definition failingTranscription :: services where
  "failingTranscription =
     exampleServices\<lparr>transcribe := (\<lambda>path. Inl (js ''Connection error.''))\<rparr>"

definition failingGeneration :: services where
  "failingGeneration =
     exampleServices\<lparr>chatStream := (\<lambda>transcript. Inl (js ''Connection error.''))\<rparr>"

definition failingSynthesis :: services where
  "failingSynthesis =
     exampleServices\<lparr>speech := (\<lambda>i segment. if i = 1 then Inl (js ''Rate limit reached'')
                                              else Inr [0, 0, 0])\<rparr>"

definition blankServices :: services where
  "blankServices =
     exampleServices\<lparr>chatStream := (\<lambda>transcript. Inr [Some [10], None, Some (js ''  '')])\<rparr>"

text \<open>A session with one chunk of 1002 bytes, the same session while its turn is processed,
  and a session with one chunk of 3 bytes.\<close>

definition capturing :: session where
  "capturing =
     \<lparr>audioChunks = [replicate 1336 (of_char CHR ''A'')], inProgress = False,
      currentSessionId = Some (js ''7d444840-9dc0-11d1-b245-5ffdce74fad2'')\<rparr>"

definition processing :: session where
  "processing = capturing\<lparr>inProgress := True\<rparr>"

definition noise :: session where
  "noise =
     \<lparr>audioChunks = [js ''AAAA''], inProgress = False,
      currentSessionId = Some (js ''7d444840-9dc0-11d1-b245-5ffdce74fad2'')\<rparr>"

text \<open>Two chunks of 668 characters of base64 text each.\<close>

definition twoChunks :: "jsstring list" where
  "twoChunks = [replicate 668 (of_char CHR ''A''), replicate 668 (of_char CHR ''A'')]"

definition capturingPath :: jsstring where
  "capturingPath = js ''tmp/7d444840-9dc0-11d1-b245-5ffdce74fad2.webm''"


text \<open>
  Three segments queued while the first is decoded and played; the third cannot be decoded.
  And one segment that is stopped while it plays, after which the browser dispatches
  \<open>ended\<close> to its source.
\<close>

definition abcEvents :: "event list" where
  "abcEvents =
     [QueueAudio (js ''AAAA''), QueueAudio (js ''BBBB''), DecodeResolved 0,
      QueueAudio (js ''CCCC''), Ended 0, DecodeResolved 0, Ended 1, DecodeRejected 0]"

definition stopEvents :: "event list" where
  "stopEvents = [QueueAudio (js ''AAAA''), DecodeResolved 0, StopPlayback, Ended 0]"

text \<open>
  A segment stopped while it is decoded, and a segment stopped while it plays, each
  followed by the segments of the next reply.
\<close>

definition stopWhileDecoding :: "event list" where
  "stopWhileDecoding =
     [QueueAudio (js ''AAAA''), StopPlayback, QueueAudio (js ''BBBB''),
      DecodeResolved 0, DecodeResolved 0]"

definition stopWhilePlaying :: "event list" where
  "stopWhilePlaying =
     [QueueAudio (js ''AAAA''), DecodeResolved 0, StopPlayback, QueueAudio (js ''BBBB''),
      QueueAudio (js ''CCCC''), Ended 0, DecodeResolved 0, DecodeResolved 0]"

section \<open>Properties of the chunker\<close>

lemma lastIndexFrom_numeral:
  "lastIndexFrom s pat (numeral n) =
     (if take (length pat) (drop (numeral n) s) = pat then int (numeral n)
      else lastIndexFrom s pat (pred_numeral n))"
  using lastIndexFrom.simps(2)[of s pat "pred_numeral n"] by (simp only: numeral_eq_Suc)

lemma filter_dropWhile_not: "filter (\<lambda>c. \<not> P c) (dropWhile P s) = filter (\<lambda>c. \<not> P c) s"
  by (induction s) auto

lemma nonSpace_trim: "nonSpace (trim s) = nonSpace s"
  by (simp add: nonSpace_def trim_def filter_dropWhile_not flip: rev_filter)

lemma nonSpace_append: "nonSpace (a @ b) = nonSpace a @ nonSpace b"
  by (simp add: nonSpace_def)

lemma nonSpace_take_drop: "nonSpace (take k s) @ nonSpace (drop k s) = nonSpace s"
  by (metis append_take_drop_id nonSpace_append)

lemma dropWhile_Nil_iff: "dropWhile P s = [] \<longleftrightarrow> filter (\<lambda>c. \<not> P c) s = []"
  by (induction s) auto

lemma trim_Nil_iff: "trim s = [] \<longleftrightarrow> nonSpace s = []"
proof -
  have "trim s = [] \<longleftrightarrow> dropWhile isSpace (rev (dropWhile isSpace s)) = []"
    by (simp only: trim_def rev_is_Nil_conv)
  also have "\<dots> \<longleftrightarrow> filter (\<lambda>c. \<not> isSpace c) (rev (dropWhile isSpace s)) = []"
    by (rule dropWhile_Nil_iff)
  also have "\<dots> \<longleftrightarrow> filter (\<lambda>c. \<not> isSpace c) (dropWhile isSpace s) = []"
    by (simp only: rev_filter[symmetric] rev_is_Nil_conv)
  also have "\<dots> \<longleftrightarrow> nonSpace s = []"
    by (simp only: filter_dropWhile_not nonSpace_def)
  finally show ?thesis .
qed

lemma length_trim_le: "length (trim s) \<le> length s"
proof -
  have "length (trim s) \<le> length (dropWhile isSpace s)"
    unfolding trim_def by (metis length_dropWhile_le length_rev)
  also have "\<dots> \<le> length s" by (rule length_dropWhile_le)
  finally show ?thesis .
qed

lemma hd_trim: "trim s \<noteq> [] \<Longrightarrow> \<not> isSpace (hd (trim s))"
proof -
  assume a: "trim s \<noteq> []"
  let ?d = "dropWhile isSpace s"
  have d: "?d \<noteq> []"
  proof
    assume "?d = []"
    then have "trim s = []" by (simp only: trim_def rev.simps dropWhile.simps)
    with a show False by simp
  qed
  have h: "\<not> isSpace (hd ?d)" using d by (rule hd_dropWhile)
  have "trim s = rev (dropWhile isSpace (rev ?d))" by (simp add: trim_def)
  obtain x xs where dx: "?d = x # xs" using d by (cases ?d) auto
  have "rev ?d = rev xs @ [x]" by (simp add: dx)
  then have "dropWhile isSpace (rev ?d) = dropWhile isSpace (rev xs) @ [x]"
    using h dx by (simp add: dropWhile_append)
  then have "trim s = x # rev (dropWhile isSpace (rev xs))" by (simp add: trim_def)
  then show ?thesis using h dx by simp
qed

lemma trim_front: "s \<noteq> [] \<Longrightarrow> \<not> isSpace (hd s) \<Longrightarrow> 0 < k \<Longrightarrow> trim (take k s) \<noteq> []"
  by (cases s; cases k) (auto simp: trim_Nil_iff nonSpace_def)

text \<open>One iteration of the loop cuts \<open>remaining\<close> at some index \<open>k\<close>, positive when \<open>maxLength\<close> is.\<close>

lemma splitLoop_step:
  assumes "maxLength < length remaining" "0 < maxLength"
  shows "\<exists>k>0. splitLoop maxLength chunks remaining =
           splitLoop maxLength (chunks @ [trim (take k remaining)]) (trim (drop k remaining))"
proof (cases "find (\<lambda>bp. 2 * bp > int maxLength) (breakPoints remaining maxLength)")
  case None
  with assms show ?thesis
    by (subst splitLoop.simps) (auto intro!: exI[of _ maxLength])
next
  case (Some bp)
  show ?thesis
  proof (cases "bp > 0")
    case True
    with Some assms show ?thesis
      by (subst splitLoop.simps) (auto intro!: exI[of _ "nat (bp + 1)"])
  next
    case False
    with Some assms show ?thesis
      by (subst splitLoop.simps) (auto intro!: exI[of _ maxLength])
  qed
qed

lemma splitLoop_total:
  assumes "0 < maxLength"
  shows "remaining = [] \<or> \<not> isSpace (hd remaining) \<Longrightarrow>
         \<exists>out. splitLoop maxLength chunks remaining = Some (chunks @ out)
               \<and> [] \<notin> set out \<and> concat (map nonSpace out) = nonSpace remaining"
proof (induction "length remaining" arbitrary: remaining chunks rule: less_induct)
  case less
  show ?case
  proof (cases "maxLength < length remaining")
    case False
    then show ?thesis
      by (subst splitLoop.simps) (auto simp: nonSpace_def)
  next
    case True
    then obtain k where k: "0 < k"
      and st: "splitLoop maxLength chunks remaining =
           splitLoop maxLength (chunks @ [trim (take k remaining)]) (trim (drop k remaining))"
      using splitLoop_step[OF True assms] by blast
    let ?r = "trim (drop k remaining)"
    have ne: "remaining \<noteq> []" using True by auto
    have "length ?r \<le> length (drop k remaining)" by (rule length_trim_le)
    also have "\<dots> < length remaining" using k ne by simp
    finally have sh: "length ?r < length remaining" .
    have fr: "?r = [] \<or> \<not> isSpace (hd ?r)" using hd_trim by blast
    from less.hyps[OF sh fr, of "chunks @ [trim (take k remaining)]"]
    obtain out where o: "splitLoop maxLength (chunks @ [trim (take k remaining)]) ?r
          = Some ((chunks @ [trim (take k remaining)]) @ out)"
       "[] \<notin> set out" "concat (map nonSpace out) = nonSpace ?r" by blast
    have c1: "trim (take k remaining) \<noteq> []"
      using trim_front[OF ne _ k] less.prems ne by blast
    have "concat (map nonSpace (trim (take k remaining) # out)) = nonSpace remaining"
      using o(3) by (simp add: nonSpace_trim nonSpace_take_drop)
    with o c1 st show ?thesis
      by (intro exI[of _ "trim (take k remaining) # out"]) auto
  qed
qed

lemma nonSpace_space: "nonSpace (js '' '') = []"
  by (simp add: nonSpace_def js_def isSpace_def)

lemma splitSentences_nonSpace:
  "concat (map nonSpace (splitSentences prev piece s)) = nonSpace piece @ nonSpace s"
proof (induction prev piece s rule: splitSentences.induct)
  case (1 prev piece)
  show ?case by (simp add: nonSpace_def)
next
  case (2 prev piece c s)
  show ?case
  proof (cases "boundaryAt prev (c # s)")
    case None
    with 2 show ?thesis by (simp add: nonSpace_append) (simp add: nonSpace_def)
  next
    case (Some r)
    then have r: "r = dropWhile isSpace (c # s)"
      by (auto simp: boundaryAt_def split: option.splits if_splits list.splits)
    have "nonSpace r = nonSpace (c # s)"
      unfolding r nonSpace_def by (rule filter_dropWhile_not)
    with 2 Some show ?thesis by (simp add: nonSpace_def)
  qed
qed

lemma concat_nonSpace_filter:
  "concat (map nonSpace (filter (\<lambda>s. length s > 0) xs)) = concat (map nonSpace xs)"
  by (induction xs) (auto simp: nonSpace_def)

lemma sentencesOf_nonSpace: "concat (map nonSpace (sentencesOf text)) = nonSpace text"
proof -
  have a: "concat (map nonSpace (map trim xs)) = concat (map nonSpace xs)" for xs
    by (induction xs) (auto simp: nonSpace_trim)
  have "concat (map nonSpace (sentencesOf text)) =
        concat (map nonSpace (map trim (splitSentences None [] text)))"
    unfolding sentencesOf_def by (rule concat_nonSpace_filter)
  also have "\<dots> = concat (map nonSpace (splitSentences None [] text))" by (rule a)
  also have "\<dots> = nonSpace [] @ nonSpace text" by (rule splitSentences_nonSpace)
  finally show ?thesis by (simp add: nonSpace_def)
qed

lemma set_if_snoc: "set (if b then xs @ [x] else xs) \<subseteq> set xs \<union> {x}"
  by auto

lemma nonSpace_Nil: "nonSpace [] = []"
  by (simp add: nonSpace_def)

text \<open>One round of the loop over the sentences, with its intermediate values named.\<close>

lemma groupSentences_round:
  obtains chunks1 cur1 where
    "groupSentences m chunks cur (sentence # rest) =
       groupSentences m (if rest = [] then chunks1 @ [trim cur1] else chunks1) cur1 rest"
    "set chunks1 \<subseteq> set chunks \<union> {trim cur}"
    "concat (map nonSpace chunks1) @ nonSpace cur1 =
       concat (map nonSpace chunks) @ nonSpace cur @ nonSpace sentence"
proof -
  define p where "p = (if cur \<noteq> [] then cur @ js '' '' @ sentence else sentence)"
  define seal where "seal \<longleftrightarrow> length p > m \<and> length cur > 0"
  define chunks1 where "chunks1 = (if seal then chunks @ [trim cur] else chunks)"
  define cur1 where "cur1 = (if seal then sentence else p)"
  have eq: "groupSentences m chunks cur (sentence # rest) =
       groupSentences m (if rest = [] then chunks1 @ [trim cur1] else chunks1) cur1 rest"
    unfolding cur1_def chunks1_def seal_def p_def
    by (simp only: groupSentences.simps Let_def)
  have sub: "set chunks1 \<subseteq> set chunks \<union> {trim cur}"
    unfolding chunks1_def by (rule set_if_snoc)
  have p: "nonSpace p = nonSpace cur @ nonSpace sentence"
    unfolding p_def by (simp add: nonSpace_append nonSpace_space nonSpace_Nil)
  have k: "concat (map nonSpace chunks1) @ nonSpace cur1 =
           concat (map nonSpace chunks) @ nonSpace cur @ nonSpace sentence"
    unfolding chunks1_def cur1_def using p by (cases seal) (simp_all add: nonSpace_trim)
  from eq sub k show thesis by (rule that)
qed

lemma groupSentences_nonSpace:
  "sentences \<noteq> [] \<Longrightarrow>
   concat (map nonSpace (groupSentences m chunks cur sentences)) =
     concat (map nonSpace chunks) @ nonSpace cur @ concat (map nonSpace sentences)"
proof (induction sentences arbitrary: chunks cur)
  case Nil
  then show ?case by simp
next
  case (Cons sentence rest)
  obtain chunks1 cur1 where eq: "groupSentences m chunks cur (sentence # rest) =
       groupSentences m (if rest = [] then chunks1 @ [trim cur1] else chunks1) cur1 rest"
    and k: "concat (map nonSpace chunks1) @ nonSpace cur1 =
       concat (map nonSpace chunks) @ nonSpace cur @ nonSpace sentence"
    by (rule groupSentences_round)
  show ?case
  proof (cases "rest = []")
    case True
    have "concat (map nonSpace (groupSentences m chunks cur (sentence # rest))) =
          concat (map nonSpace chunks1) @ nonSpace cur1"
      by (subst eq) (simp add: True nonSpace_trim)
    with k True show ?thesis by simp
  next
    case False
    have "concat (map nonSpace (groupSentences m chunks cur (sentence # rest))) =
         concat (map nonSpace chunks1) @ nonSpace cur1 @ concat (map nonSpace rest)"
      unfolding eq using Cons.IH[OF False, of chunks1 cur1] False by simp
    with k show ?thesis by simp
  qed
qed

lemma groupSentences_trimmed:
  "c \<in> set (groupSentences m chunks cur sentences) \<Longrightarrow> c \<in> set chunks \<or> (\<exists>x. c = trim x)"
proof (induction sentences arbitrary: chunks cur)
  case Nil
  then show ?case by simp
next
  case (Cons sentence rest)
  obtain chunks1 cur1 where eq: "groupSentences m chunks cur (sentence # rest) =
       groupSentences m (if rest = [] then chunks1 @ [trim cur1] else chunks1) cur1 rest"
    and sub: "set chunks1 \<subseteq> set chunks \<union> {trim cur}"
    by (rule groupSentences_round)
  have "c \<in> set (groupSentences m (if rest = [] then chunks1 @ [trim cur1] else chunks1) cur1 rest)"
    using Cons.prems by (simp only: eq)
  then have a: "c \<in> set (if rest = [] then chunks1 @ [trim cur1] else chunks1) \<or> (\<exists>x. c = trim x)"
    by (rule Cons.IH)
  have "set (if rest = [] then chunks1 @ [trim cur1] else chunks1) \<subseteq> set chunks1 \<union> {trim cur1}"
    by (rule set_if_snoc)
  with sub a show ?case by blast
qed

lemma flatMapChunks_total:
  assumes "0 < m"
  shows "\<forall>c\<in>set cs. c \<noteq> [] \<and> \<not> isSpace (hd c) \<Longrightarrow>
         \<exists>out. flatMapChunks m cs = Some out \<and> [] \<notin> set out
               \<and> concat (map nonSpace out) = concat (map nonSpace cs)"
proof (induction cs)
  case Nil
  then show ?case by simp
next
  case (Cons c cs)
  then obtain more where m: "flatMapChunks m cs = Some more" "[] \<notin> set more"
      "concat (map nonSpace more) = concat (map nonSpace cs)"
    by auto
  have c: "c \<noteq> []" "\<not> isSpace (hd c)" using Cons.prems by auto
  show ?case
  proof (cases "m < length c")
    case False
    with m c show ?thesis by simp
  next
    case True
    from splitLoop_total[OF assms, of c "[]"] c
    obtain parts where p: "splitLoop m [] c = Some parts" "[] \<notin> set parts"
        "concat (map nonSpace parts) = nonSpace c"
      by auto
    with m True show ?thesis by (simp add: splitLongChunk_def)
  qed
qed

lemma createOptimalTTSChunks_total:
  assumes "0 < m"
  shows "\<exists>segs. createOptimalTTSChunks text m = Some segs \<and> [] \<notin> set segs
           \<and> concat (map nonSpace segs) = nonSpace text"
proof (cases "text = [] \<or> length (trim text) = 0")
  case True
  then have "nonSpace text = []" by (auto simp: trim_Nil_iff nonSpace_def)
  with True show ?thesis by (simp add: createOptimalTTSChunks_def)
next
  case False
  note nonblank = this
  show ?thesis
  proof (cases "length (sentencesOf text) = 0")
    case True
    with nonblank show ?thesis
      by (auto simp: createOptimalTTSChunks_def nonSpace_trim)
  next
    case False
    let ?g = "groupSentences m [] [] (sentencesOf text)"
    let ?cs = "filter (\<lambda>chunk. length chunk > 0) ?g"
    have "\<forall>c\<in>set ?cs. c \<noteq> [] \<and> \<not> isSpace (hd c)"
      using groupSentences_trimmed[of _ m "[]" "[]" "sentencesOf text"] hd_trim by fastforce
    from flatMapChunks_total[OF assms this]
    obtain out where o: "flatMapChunks m ?cs = Some out" "[] \<notin> set out"
        "concat (map nonSpace out) = concat (map nonSpace ?cs)"
      by blast
    have "concat (map nonSpace ?cs) = concat (map nonSpace ?g)"
      by (rule concat_nonSpace_filter)
    also have "\<dots> = nonSpace text"
      using False by (simp add: groupSentences_nonSpace sentencesOf_nonSpace) (simp add: nonSpace_def)
    finally have "concat (map nonSpace out) = nonSpace text" using o(3) by simp
    with o nonblank False show ?thesis by (simp add: createOptimalTTSChunks_def)
  qed
qed

lemma concat_map_nonSpace: "concat (map nonSpace xs) = nonSpace (concat xs)"
  by (induction xs) (auto simp: nonSpace_def)

subsection \<open>The segments and the text up to collapsed white space\<close>

lemma isSpace_32 [simp]: "isSpace 32"
  by (simp add: isSpace_def)

lemma col_append:
  "col p (a @ b) = col p a @ col (if a = [] then p else isSpace (last a)) b"
  by (induction a arbitrary: p) auto

lemma col_white: "\<forall>c\<in>set w. isSpace c \<Longrightarrow> col p w = (if p \<or> w = [] then [] else [32])"
  by (induction w arbitrary: p) auto

lemma col_flag: "s = [] \<or> \<not> isSpace (hd s) \<Longrightarrow> col p s = col False s"
  by (cases s) auto

lemma col_True_dropWhile: "col True (dropWhile isSpace s) = col True s"
  by (induction s) auto

lemma col_Nil: "col False s = [] \<longleftrightarrow> s = []"
  by (cases s) auto

lemma spec_collapse_col: "spec_collapse s = col False s"
proof (induction s rule: spec_collapse.induct)
  case 1
  show ?case by simp
next
  case (2 c s)
  show ?case
  proof (cases "isSpace c")
    case True
    have "dropWhile isSpace s = [] \<or> \<not> isSpace (hd (dropWhile isSpace s))"
      using hd_dropWhile by blast
    then have "col False (dropWhile isSpace s) = col True (dropWhile isSpace s)"
      by (rule col_flag[symmetric])
    with 2 True show ?thesis by (simp add: col_True_dropWhile)
  next
    case False
    with 2 show ?thesis by simp
  qed
qed

lemma trim_unique:
  assumes "\<forall>c\<in>set l. isSpace c" "\<forall>c\<in>set t. isSpace c" "trimmed m"
  shows "trim (l @ m @ t) = m"
proof (cases "m = []")
  case True
  then have "\<forall>x\<in>set (l @ m @ t). isSpace x" using assms by auto
  then have "dropWhile isSpace (l @ m @ t) = []" by (subst dropWhile_eq_Nil_conv)
  then show ?thesis using True by (simp only: trim_def rev.simps dropWhile.simps)
next
  case False
  then have h: "\<not> isSpace (hd m)" and e: "\<not> isSpace (last m)"
    using assms(3) by (auto simp: trimmed_def)
  have "dropWhile isSpace (l @ m @ t) = dropWhile isSpace (m @ t)"
    using assms(1) by (simp add: dropWhile_append)
  also have "\<dots> = m @ t" using h False by (cases m) auto
  finally have d: "dropWhile isSpace (l @ m @ t) = m @ t" .
  have "dropWhile isSpace (rev (m @ t)) = dropWhile isSpace (rev m)"
    using assms(2) by (simp add: dropWhile_append)
  also have "\<dots> = rev m"
    using e False by (cases "rev m") (auto simp: last_rev hd_rev)
  finally show ?thesis by (simp add: trim_def d)
qed

lemma last_trim: "trim s \<noteq> [] \<Longrightarrow> \<not> isSpace (last (trim s))"
proof -
  assume a: "trim s \<noteq> []"
  let ?x = "dropWhile isSpace (rev (dropWhile isSpace s))"
  have "?x \<noteq> []" using a by (simp add: trim_def)
  then have "\<not> isSpace (hd ?x)" by (rule hd_dropWhile)
  then show ?thesis using \<open>?x \<noteq> []\<close> by (simp add: trim_def last_rev)
qed

lemma trimmed_trim: "trimmed (trim s)"
  using hd_trim last_trim by (auto simp: trimmed_def)

lemma trim_decomp:
  obtains l t where "s = l @ trim s @ t" "\<forall>c\<in>set l. isSpace c" "\<forall>c\<in>set t. isSpace c"
proof -
  let ?d = "dropWhile isSpace s"
  let ?l = "takeWhile isSpace s"
  let ?t = "rev (takeWhile isSpace (rev ?d))"
  have "rev (takeWhile isSpace (rev ?d) @ dropWhile isSpace (rev ?d)) = ?d"
    by (simp only: takeWhile_dropWhile_id rev_rev_ident)
  then have "rev (dropWhile isSpace (rev ?d)) @ ?t = ?d" by (simp only: rev_append)
  then have "?d = trim s @ ?t" by (simp only: trim_def)
  then have "s = ?l @ trim s @ ?t" by (metis takeWhile_dropWhile_id)
  moreover have "\<forall>c\<in>set ?l. isSpace c" by (auto dest: set_takeWhileD)
  moreover have "\<forall>c\<in>set ?t. isSpace c" by (auto dest: set_takeWhileD)
  ultimately show thesis by (rule that)
qed

lemma trim_sandwich:
  assumes "\<forall>c\<in>set l. isSpace c" "\<forall>c\<in>set t. isSpace c"
  shows "trim (l @ s @ t) = trim s"
proof -
  obtain l' t' where s: "s = l' @ trim s @ t'" and w: "\<forall>c\<in>set l'. isSpace c" "\<forall>c\<in>set t'. isSpace c"
    by (rule trim_decomp)
  have "l @ s @ t = l @ (l' @ trim s @ t') @ t" using s by (rule arg_cong)
  then have "l @ s @ t = (l @ l') @ trim s @ (t' @ t)" by (simp only: append_assoc)
  then have "trim (l @ s @ t) = trim ((l @ l') @ trim s @ (t' @ t))" by (rule arg_cong)
  also have "\<dots> = trim s"
    by (rule trim_unique) (use assms w trimmed_trim in auto)
  finally show ?thesis .
qed

lemma trim_trimmed: "trimmed s \<Longrightarrow> trim s = s"
  using trim_unique[of "[]" "[]" s] by simp

lemma trim_white: "\<forall>c\<in>set w. isSpace c \<Longrightarrow> trim w = []"
  using trim_unique[of w "[]" "[]"] by (simp add: trimmed_def)

lemma tcol_Nil [simp]: "tcol [] = []"
  by (simp add: tcol_def trim_def)

lemma tcol_Nil_iff: "tcol s = [] \<longleftrightarrow> trim s = []"
  by (simp add: tcol_def col_Nil)

lemma tcol_trim: "tcol (trim s) = tcol s"
  by (simp add: tcol_def trim_trimmed trimmed_trim)

lemma tcol_sandwich:
  "\<forall>c\<in>set l. isSpace c \<Longrightarrow> \<forall>c\<in>set t. isSpace c \<Longrightarrow> tcol (l @ s @ t) = tcol s"
  by (simp add: tcol_def trim_sandwich)

lemma tjoin_Nil [simp]: "tjoin [] y = y" "tjoin x [] = x"
  by (simp_all add: tjoin_def)

lemma tjoin_assoc: "tjoin (tjoin x y) z = tjoin x (tjoin y z)"
  by (simp add: tjoin_def)

lemma tj_append: "tj (xs @ ys) = tjoin (tj xs) (tj ys)"
  by (induction xs) (simp_all add: tjoin_assoc)

text \<open>A gap of white space between two texts.\<close>

lemma tcol_gap:
  assumes "\<forall>c\<in>set w. isSpace c" "w \<noteq> []"
  shows "tcol (a @ w @ b) = tjoin (tcol a) (tcol b)"
proof -
  obtain la ta where a: "a = la @ trim a @ ta"
    and wa: "\<forall>c\<in>set la. isSpace c" "\<forall>c\<in>set ta. isSpace c"
    by (rule trim_decomp)
  obtain lb tb where b: "b = lb @ trim b @ tb"
    and wb: "\<forall>c\<in>set lb. isSpace c" "\<forall>c\<in>set tb. isSpace c"
    by (rule trim_decomp)
  show ?thesis
  proof (cases "trim a = []")
    case True
    then have "\<forall>c\<in>set a. isSpace c" using a wa by (metis Un_iff append_Nil set_append)
    then have "\<forall>c\<in>set (a @ w). isSpace c" using assms(1) by auto
    from tcol_sandwich[OF this, of "[]" b] True show ?thesis
      by (simp add: tcol_def)
  next
    case False
    note A = this
    show ?thesis
    proof (cases "trim b = []")
      case True
      then have "\<forall>c\<in>set b. isSpace c" using b wb by (metis Un_iff append_Nil set_append)
      then have "\<forall>c\<in>set (w @ b). isSpace c" using assms(1) by auto
      from tcol_sandwich[of "[]" "w @ b" a] this True show ?thesis
        by (simp add: tcol_def)
    next
      case False
      let ?W = "ta @ w @ lb"
      let ?M = "trim a @ ?W @ trim b"
      have W: "\<forall>c\<in>set ?W. isSpace c" "?W \<noteq> []" using wa wb assms by auto
      have "a @ w @ b = (la @ trim a @ ta) @ w @ (lb @ trim b @ tb)"
        using a b by (metis)
      then have e: "a @ w @ b = la @ ?M @ tb" by (simp only: append_assoc)
      have tm: "trimmed ?M"
        using A False hd_trim[of a] last_trim[of b] by (simp add: trimmed_def)
      have "trim (a @ w @ b) = ?M"
        unfolding e by (rule trim_unique[OF wa(1) wb(2) tm])
      then have "tcol (a @ w @ b) = col False ?M" by (simp add: tcol_def)
      also have "\<dots> = col False (trim a) @ col False ?W @ col True (trim b)"
        using A W last_trim[of a] by (simp add: col_append)
      also have "col False ?W = [32]" using W by (simp add: col_white)
      also have "col True (trim b) = col False (trim b)"
        using hd_trim[of b] by (intro col_flag) blast
      finally show ?thesis using A False
        by (simp add: tcol_def tjoin_def col_Nil)
    qed
  qed
qed

text \<open>Two texts that touch without white space.\<close>

lemma tcol_glue:
  assumes "a \<noteq> []" "\<not> isSpace (last a)" "b \<noteq> []" "\<not> isSpace (hd b)"
  shows "tcol (a @ b) = tcol a @ tcol b"
proof -
  obtain la ta where a: "a = la @ trim a @ ta"
    and wa: "\<forall>c\<in>set la. isSpace c" "\<forall>c\<in>set ta. isSpace c"
    by (rule trim_decomp)
  obtain lb tb where b: "b = lb @ trim b @ tb"
    and wb: "\<forall>c\<in>set lb. isSpace c" "\<forall>c\<in>set tb. isSpace c"
    by (rule trim_decomp)
  have ta: "ta = []"
  proof (rule ccontr)
    assume "ta \<noteq> []"
    then have "last a = last ta" by (subst a) simp
    then show False using assms(2) wa(2) \<open>ta \<noteq> []\<close> by (metis last_in_set)
  qed
  have A: "trim a \<noteq> []"
  proof
    assume "trim a = []"
    then have "a = la" using a ta by simp
    then show False using assms(1,2) wa(1) by (metis last_in_set)
  qed
  have lb: "lb = []"
  proof (rule ccontr)
    assume "lb \<noteq> []"
    then have "hd b = hd lb" by (subst b) simp
    then show False using assms(4) wb(1) \<open>lb \<noteq> []\<close> by (metis hd_in_set)
  qed
  have B: "trim b \<noteq> []"
  proof
    assume "trim b = []"
    then have "b = tb" using b lb by simp
    then show False using assms(3,4) wb(2) by (metis hd_in_set)
  qed
  have "a @ b = (la @ trim a @ ta) @ (lb @ trim b @ tb)" using a b by metis
  then have e: "a @ b = la @ (trim a @ trim b) @ tb" by (simp add: ta lb)
  have tm: "trimmed (trim a @ trim b)"
    using A B hd_trim[of a] last_trim[of b] by (simp add: trimmed_def)
  have "trim (a @ b) = trim a @ trim b"
    unfolding e by (rule trim_unique[OF wa(1) wb(2) tm])
  then show ?thesis using A last_trim[of a] by (simp add: tcol_def col_append)
qed

lemma tcol_adjacent:
  assumes "(a \<noteq> [] \<and> isSpace (last a)) \<or> (b \<noteq> [] \<and> isSpace (hd b))"
  shows "tcol (a @ b) = tjoin (tcol a) (tcol b)"
  using assms
proof
  assume h: "a \<noteq> [] \<and> isSpace (last a)"
  then have a: "a = butlast a @ [last a]" by simp
  have "tcol (butlast a @ [last a] @ b) = tjoin (tcol (butlast a)) (tcol b)"
    by (rule tcol_gap) (use h in simp_all)
  moreover have "tcol (butlast a @ [last a]) = tcol (butlast a)"
    using tcol_sandwich[of "[]" "[last a]" "butlast a"] h by simp
  ultimately show ?thesis using a by (metis append_assoc)
next
  assume h: "b \<noteq> [] \<and> isSpace (hd b)"
  then have b: "b = [hd b] @ tl b" by simp
  have "tcol (a @ [hd b] @ tl b) = tjoin (tcol a) (tcol (tl b))"
    by (rule tcol_gap) (use h in simp_all)
  moreover have "tcol ([hd b] @ tl b) = tcol (tl b)"
    using tcol_sandwich[of "[hd b]" "[]" "tl b"] h by simp
  ultimately show ?thesis using b by metis
qed

lemma tj_filter: "tj (map tcol (filter (\<lambda>s. length s > 0) xs)) = tj (map tcol xs)"
  by (induction xs) auto

lemma tj_map_trim: "tj (map tcol (map trim xs)) = tj (map tcol xs)"
  by (induction xs) (simp_all add: tcol_trim)

lemma splitSentences_tcol:
  "tj (map tcol (splitSentences prev piece s)) = tcol (piece @ s)"
proof (induction prev piece s rule: splitSentences.induct)
  case (1 prev piece)
  show ?case by simp
next
  case (2 prev piece c s)
  show ?case
  proof (cases "boundaryAt prev (c # s)")
    case None
    with 2 show ?thesis by simp
  next
    case (Some r)
    let ?w = "takeWhile isSpace (c # s)"
    from Some have r: "r = dropWhile isSpace (c # s)" and w: "?w \<noteq> []"
      by (auto simp: boundaryAt_def split: option.splits if_splits list.splits)
    have cs: "c # s = ?w @ r" unfolding r by simp
    have ww: "\<forall>x\<in>set ?w. isSpace x" by (auto dest: set_takeWhileD)
    have "tj (map tcol (splitSentences prev piece (c # s))) = tjoin (tcol piece) (tcol r)"
      using 2(2)[OF Some] Some by simp
    also have "\<dots> = tcol (piece @ ?w @ r)"
      by (rule tcol_gap[OF ww w, symmetric])
    finally show ?thesis using cs by metis
  qed
qed

lemma sentencesOf_tcol: "tj (map tcol (sentencesOf text)) = tcol text"
proof -
  have "tj (map tcol (sentencesOf text)) = tj (map tcol (map trim (splitSentences None [] text)))"
    unfolding sentencesOf_def by (rule tj_filter)
  also have "\<dots> = tj (map tcol (splitSentences None [] text))" by (rule tj_map_trim)
  also have "\<dots> = tcol ([] @ text)" by (rule splitSentences_tcol)
  finally show ?thesis by simp
qed

lemma tcol_space: "tcol (a @ js '' '' @ b) = tjoin (tcol a) (tcol b)"
  by (rule tcol_gap) (simp_all add: js_def)

lemma groupSentences_round_tcol:
  obtains chunks1 cur1 where
    "groupSentences m chunks cur (sentence # rest) =
       groupSentences m (if rest = [] then chunks1 @ [trim cur1] else chunks1) cur1 rest"
    "tjoin (tj (map tcol chunks1)) (tcol cur1) =
       tjoin (tj (map tcol chunks)) (tjoin (tcol cur) (tcol sentence))"
proof -
  define p where "p = (if cur \<noteq> [] then cur @ js '' '' @ sentence else sentence)"
  define seal where "seal \<longleftrightarrow> length p > m \<and> length cur > 0"
  define chunks1 where "chunks1 = (if seal then chunks @ [trim cur] else chunks)"
  define cur1 where "cur1 = (if seal then sentence else p)"
  have eq: "groupSentences m chunks cur (sentence # rest) =
       groupSentences m (if rest = [] then chunks1 @ [trim cur1] else chunks1) cur1 rest"
    unfolding cur1_def chunks1_def seal_def p_def
    by (simp only: groupSentences.simps Let_def)
  have p: "tcol p = tjoin (tcol cur) (tcol sentence)"
    unfolding p_def by (simp add: tcol_space)
  have k: "tjoin (tj (map tcol chunks1)) (tcol cur1) =
       tjoin (tj (map tcol chunks)) (tjoin (tcol cur) (tcol sentence))"
    unfolding chunks1_def cur1_def using p
    by (cases seal) (simp_all add: tj_append tcol_trim tjoin_assoc)
  from eq k show thesis by (rule that)
qed

lemma groupSentences_tcol:
  "sentences \<noteq> [] \<Longrightarrow>
   tj (map tcol (groupSentences m chunks cur sentences)) =
     tjoin (tj (map tcol chunks)) (tjoin (tcol cur) (tj (map tcol sentences)))"
proof (induction sentences arbitrary: chunks cur)
  case Nil
  then show ?case by simp
next
  case (Cons sentence rest)
  obtain chunks1 cur1 where eq: "groupSentences m chunks cur (sentence # rest) =
       groupSentences m (if rest = [] then chunks1 @ [trim cur1] else chunks1) cur1 rest"
    and k: "tjoin (tj (map tcol chunks1)) (tcol cur1) =
       tjoin (tj (map tcol chunks)) (tjoin (tcol cur) (tcol sentence))"
    by (rule groupSentences_round_tcol)
  show ?case
  proof (cases "rest = []")
    case True
    have "tj (map tcol (groupSentences m chunks cur (sentence # rest))) =
          tjoin (tj (map tcol chunks1)) (tcol cur1)"
      by (subst eq) (simp add: True tj_append tcol_trim)
    with k True show ?thesis by simp
  next
    case False
    have "tj (map tcol (groupSentences m chunks cur (sentence # rest))) =
         tjoin (tj (map tcol chunks1)) (tjoin (tcol cur1) (tj (map tcol rest)))"
      unfolding eq using Cons.IH[OF False, of chunks1 cur1] False by simp
    also have "\<dots> = tjoin (tjoin (tj (map tcol chunks1)) (tcol cur1)) (tj (map tcol rest))"
      by (simp only: tjoin_assoc)
    also have "\<dots> = tjoin (tjoin (tj (map tcol chunks)) (tjoin (tcol cur) (tcol sentence)))
                        (tj (map tcol rest))"
      by (simp only: k)
    finally show ?thesis by (simp add: tjoin_assoc)
  qed
qed

lemma rejoin_cons: "out \<noteq> [] \<Longrightarrow> rejoin (a # out) (sep # seps) = a @ sep @ rejoin out seps"
  by (cases out) simp_all

lemma separators_cons:
  "out \<noteq> [] \<Longrightarrow>
   separators m (a # out) (sep # seps) =
     ((sep = js '' '' \<or> (sep = [] \<and> length a = m)) \<and> separators m out seps)"
  by (cases out) simp_all

lemma separators_cons_Nil: "out \<noteq> [] \<Longrightarrow> \<not> separators m (a # out) []"
  by (cases out) simp_all

lemma rejoin_trimmed:
  "out \<noteq> [] \<Longrightarrow> \<forall>s\<in>set out. s \<noteq> [] \<and> trimmed s \<Longrightarrow> separators m out seps \<Longrightarrow>
   rejoin out seps \<noteq> [] \<and> trimmed (rejoin out seps)"
proof (induction out arbitrary: seps)
  case Nil
  then show ?case by simp
next
  case (Cons a out)
  show ?case
  proof (cases "out = []")
    case True
    with Cons.prems show ?thesis by simp
  next
    case False
    with Cons.prems(3) obtain sep seps' where seps: "seps = sep # seps'"
      using separators_cons_Nil[OF False] by (cases seps) auto
    with Cons.prems(3) False have s: "separators m out seps'"
      by (simp add: separators_cons)
    from Cons.IH[OF False _ s] Cons.prems(2)
    have j: "rejoin out seps' \<noteq> []" "trimmed (rejoin out seps')" by auto
    have a: "a \<noteq> []" "trimmed a" using Cons.prems(2) by auto
    have "rejoin (a # out) seps = a @ sep @ rejoin out seps'"
      unfolding seps by (rule rejoin_cons[OF False])
    moreover have "trimmed (a @ sep @ rejoin out seps')"
      using a j by (simp add: trimmed_def)
    ultimately show ?thesis using a by simp
  qed
qed

lemma rejoin_append:
  "xs \<noteq> [] \<Longrightarrow> ys \<noteq> [] \<Longrightarrow> separators m xs sx \<Longrightarrow> separators m ys sy \<Longrightarrow>
   separators m (xs @ ys) (sx @ js '' '' # sy)
   \<and> rejoin (xs @ ys) (sx @ js '' '' # sy) = rejoin xs sx @ js '' '' @ rejoin ys sy"
proof (induction xs arbitrary: sx)
  case Nil
  then show ?case by simp
next
  case (Cons x xs)
  show ?case
  proof (cases "xs = []")
    case True
    with Cons.prems show ?thesis
      by (simp add: separators_cons rejoin_cons)
  next
    case False
    with Cons.prems(3) obtain sep sx' where sx: "sx = sep # sx'"
      using separators_cons_Nil[OF False] by (cases sx) auto
    with Cons.prems(3) False have s: "sep = js '' '' \<or> (sep = [] \<and> length x = m)"
      "separators m xs sx'"
      by (simp_all add: separators_cons)
    from Cons.IH[OF False Cons.prems(2) s(2) Cons.prems(4)]
    have ih: "separators m (xs @ ys) (sx' @ js '' '' # sy)"
      "rejoin (xs @ ys) (sx' @ js '' '' # sy) = rejoin xs sx' @ js '' '' @ rejoin ys sy"
      by auto
    have ne: "xs @ ys \<noteq> []" using False by simp
    show ?thesis
      using ih s(1) separators_cons[OF ne, of m x sep "sx' @ js '' '' # sy"]
        rejoin_cons[OF ne, of x sep "sx' @ js '' '' # sy"] rejoin_cons[OF False, of x sep sx']
      by (simp add: sx)
  qed
qed

lemma lastIndexFrom_found:
  "0 \<le> lastIndexFrom s pat k \<Longrightarrow>
   take (length pat) (drop (nat (lastIndexFrom s pat k)) s) = pat"
proof (induction k)
  case 0
  then show ?case by (simp split: if_splits)
next
  case (Suc k)
  have n: "nat (int (Suc k)) = Suc k" by simp
  show ?case
  proof (cases "take (length pat) (drop (Suc k) s) = pat")
    case True
    then have "lastIndexFrom s pat (Suc k) = int (Suc k)" by simp
    with True n show ?thesis by (simp only:)
  next
    case False
    then have "lastIndexFrom s pat (Suc k) = lastIndexFrom s pat k" by simp
    with Suc show ?thesis by simp
  qed
qed

lemma lastIndexOf_found:
  assumes "lastIndexOf s pat k = i" "0 \<le> i"
  shows "take (length pat) (drop (nat i) s) = pat"
proof (cases "length s < length pat")
  case True
  with assms show ?thesis by (simp add: lastIndexOf_def)
next
  case False
  then have "i = lastIndexFrom s pat (min k (length s - length pat))"
    using assms(1) by (simp add: lastIndexOf_def)
  with assms(2) lastIndexFrom_found[of s pat "min k (length s - length pat)"]
  show ?thesis by simp
qed

lemma occurs_first:
  assumes "take (length pat) (drop n r) = pat" "pat \<noteq> []" "isSpace (hd pat)"
  shows "adjacent (Suc n) r"
proof -
  obtain x rest where pat: "pat = x # rest" using assms(2) by (cases pat) auto
  have x: "isSpace x" using assms(3) pat by simp
  have t: "take (Suc (length rest)) (drop n r) = x # rest"
    using assms(1) unfolding pat by simp
  obtain d where d: "drop n r = x # d" using t by (cases "drop n r") auto
  then have n: "n < length r" by (metis drop_all list.distinct(1) not_le)
  with d have "r ! n = x" by (metis nth_via_drop)
  with n have "take (Suc n) r = take n r @ [x]" by (simp add: take_Suc_conv_app_nth)
  with x show ?thesis by (simp add: adjacent_def)
qed

lemma occurs_second:
  assumes "take (length pat) (drop n r) = pat" "2 \<le> length pat" "isSpace (pat ! 1)"
  shows "adjacent (Suc n) r"
proof -
  obtain x rest0 where p0: "pat = x # rest0" using assms(2) by (cases pat) auto
  with assms(2) obtain y rest where pat: "pat = x # y # rest" by (cases rest0) auto
  have y: "isSpace y" using assms(3) pat by simp
  have t: "take (Suc (Suc (length rest))) (drop n r) = x # y # rest"
    using assms(1) unfolding pat by simp
  obtain d1 where d1: "drop n r = x # d1" using t by (cases "drop n r") auto
  with t have "take (Suc (length rest)) d1 = y # rest" by simp
  then obtain d where "d1 = y # d" by (cases d1) auto
  with d1 have d: "drop n r = x # y # d" by simp
  have "drop (Suc n) r = tl (drop n r)" by (simp add: drop_Suc drop_tl)
  with d have "drop (Suc n) r = y # d" by simp
  with y show ?thesis by (simp add: adjacent_def)
qed

lemma breakPoint_adjacent:
  assumes "bp \<in> set (breakPoints r m)" "0 < bp"
  shows "adjacent (nat (bp + 1)) r"
proof -
  have n: "nat (bp + 1) = Suc (nat bp)" using assms(2) by simp
  from assms(1) consider
      "bp = lastIndexOf r (js '', '') m" | "bp = lastIndexOf r (js '' and '') m"
    | "bp = lastIndexOf r (js '' or '') m" | "bp = lastIndexOf r (js '' but '') m"
    | "bp = lastIndexOf r (js '' - '') m" | "bp = lastIndexOf r (js '' '') m"
    by (auto simp: breakPoints_def)
  then show ?thesis
  proof cases
    case 1
    from lastIndexOf_found[OF 1[symmetric]] assms(2)
    have "take (length (js '', '')) (drop (nat bp) r) = js '', ''" by simp
    then show ?thesis unfolding n by (rule occurs_second) (simp_all add: js_def)
  next
    case 2
    from lastIndexOf_found[OF 2[symmetric]] assms(2)
    have "take (length (js '' and '')) (drop (nat bp) r) = js '' and ''" by simp
    then show ?thesis unfolding n by (rule occurs_first) (simp_all add: js_def)
  next
    case 3
    from lastIndexOf_found[OF 3[symmetric]] assms(2)
    have "take (length (js '' or '')) (drop (nat bp) r) = js '' or ''" by simp
    then show ?thesis unfolding n by (rule occurs_first) (simp_all add: js_def)
  next
    case 4
    from lastIndexOf_found[OF 4[symmetric]] assms(2)
    have "take (length (js '' but '')) (drop (nat bp) r) = js '' but ''" by simp
    then show ?thesis unfolding n by (rule occurs_first) (simp_all add: js_def)
  next
    case 5
    from lastIndexOf_found[OF 5[symmetric]] assms(2)
    have "take (length (js '' - '')) (drop (nat bp) r) = js '' - ''" by simp
    then show ?thesis unfolding n by (rule occurs_first) (simp_all add: js_def)
  next
    case 6
    from lastIndexOf_found[OF 6[symmetric]] assms(2)
    have "take (length (js '' '')) (drop (nat bp) r) = js '' ''" by simp
    then show ?thesis unfolding n by (rule occurs_first) (simp_all add: js_def)
  qed
qed

text \<open>One iteration of the loop: the cut is at the maximum (a forced split) or next to
  white space (a break).\<close>

lemma splitLoop_cut:
  assumes "maxLength < length remaining" "0 < maxLength"
  shows "\<exists>k>0. splitLoop maxLength chunks remaining =
           splitLoop maxLength (chunks @ [trim (take k remaining)]) (trim (drop k remaining))
         \<and> (k = maxLength \<or> adjacent k remaining)"
proof (cases "find (\<lambda>bp. 2 * bp > int maxLength) (breakPoints remaining maxLength)")
  case None
  with assms show ?thesis
    by (subst splitLoop.simps) (auto intro!: exI[of _ maxLength])
next
  case (Some bp)
  show ?thesis
  proof (cases "bp > 0")
    case True
    from Some have "bp \<in> set (breakPoints remaining maxLength)"
      by (auto simp: find_Some_iff)
    then have "adjacent (nat (bp + 1)) remaining" using True by (rule breakPoint_adjacent)
    with Some assms True show ?thesis
      by (subst splitLoop.simps) (auto intro!: exI[of _ "nat (bp + 1)"])
  next
    case False
    with Some assms show ?thesis
      by (subst splitLoop.simps) (auto intro!: exI[of _ maxLength])
  qed
qed

lemma trim_Nil_white: "trim s = [] \<Longrightarrow> \<forall>c\<in>set s. isSpace c"
  by (simp add: trim_Nil_iff nonSpace_def filter_empty_conv)

lemma splitLoop_Nil: "splitLoop m chunks [] = Some chunks"
  by (subst splitLoop.simps) simp

lemma splitLoop_rejoin:
  assumes "0 < maxLength"
  shows "trimmed remaining \<Longrightarrow>
         \<exists>out seps. splitLoop maxLength chunks remaining = Some (chunks @ out)
               \<and> (\<forall>s\<in>set out. s \<noteq> [] \<and> trimmed s)
               \<and> separators maxLength out seps
               \<and> tcol (rejoin out seps) = tcol remaining"
proof (induction "length remaining" arbitrary: remaining chunks rule: less_induct)
  case less
  show ?case
  proof (cases "maxLength < length remaining")
    case False
    show ?thesis
    proof (cases "remaining = []")
      case True
      then show ?thesis
        by (intro exI[of _ "[]"]) (simp add: splitLoop_Nil)
    next
      case ne: False
      have "splitLoop maxLength chunks remaining = Some (chunks @ [remaining])"
        using False ne by (subst splitLoop.simps) simp
      then show ?thesis using ne less.prems
        by (intro exI[of _ "[remaining]"] exI[of _ "[]"]) simp
    qed
  next
    case True
    then obtain k where k: "0 < k"
      and st: "splitLoop maxLength chunks remaining =
           splitLoop maxLength (chunks @ [trim (take k remaining)]) (trim (drop k remaining))"
      and cut: "k = maxLength \<or> adjacent k remaining"
      using splitLoop_cut[OF True assms] by blast
    let ?a = "take k remaining" and ?b = "drop k remaining"
    let ?A = "trim ?a" and ?B = "trim ?b"
    have ne: "remaining \<noteq> []" using True by auto
    have hr: "\<not> isSpace (hd remaining)" using less.prems ne by (simp add: trimmed_def)
    have a_ne: "?a \<noteq> []" using k ne by simp
    have hd_a: "hd ?a = hd remaining" using k ne by (cases remaining; cases k) auto
    have A_ne: "?A \<noteq> []" using trim_front[OF ne hr k] .
    have tA: "trimmed ?A" by (rule trimmed_trim)
    have r: "remaining = ?a @ ?b" by simp
    show ?thesis
    proof (cases "?B = []")
      case True
      have "splitLoop maxLength chunks remaining = Some (chunks @ [?A])"
        unfolding st True by (rule splitLoop_Nil)
      moreover have "tcol ?A = tcol remaining"
      proof -
        have w: "\<forall>c\<in>set ?b. isSpace c" using True by (rule trim_Nil_white)
        have "tcol ([] @ ?a @ ?b) = tcol ?a" by (rule tcol_sandwich) (use w in simp_all)
        then show ?thesis by (simp add: tcol_trim)
      qed
      ultimately show ?thesis using A_ne tA
        by (intro exI[of _ "[?A]"] exI[of _ "[]"]) simp
    next
      case False
      have b_ne: "?b \<noteq> []" using False by (auto simp: trim_def)
      have "length ?B \<le> length ?b" by (rule length_trim_le)
      also have "\<dots> < length remaining" using k ne by simp
      finally have sh: "length ?B < length remaining" .
      from less.hyps[OF sh trimmed_trim, of "chunks @ [?A]"]
      obtain out seps where o: "splitLoop maxLength (chunks @ [?A]) ?B = Some ((chunks @ [?A]) @ out)"
        "\<forall>s\<in>set out. s \<noteq> [] \<and> trimmed s" "separators maxLength out seps"
        "tcol (rejoin out seps) = tcol ?B"
        by blast
      have out_ne: "out \<noteq> []"
      proof
        assume "out = []"
        with o(4) have "tcol ?B = []" by simp
        then show False using False by (simp add: tcol_Nil_iff trim_trimmed trimmed_trim)
      qed
      let ?J = "rejoin out seps"
      have J: "?J \<noteq> []" "trimmed ?J" using rejoin_trimmed[OF out_ne o(2,3)] by auto
      have tJ: "tcol ?J = tcol ?b" using o(4) by (simp add: tcol_trim)
      have run: "splitLoop maxLength chunks remaining = Some (chunks @ ?A # out)"
        using st o(1) by simp
      have all: "\<forall>s\<in>set (?A # out). s \<noteq> [] \<and> trimmed s" using o(2) A_ne tA by simp
      show ?thesis
      proof (cases "adjacent k remaining")
        case True
        then have adj: "(?a \<noteq> [] \<and> isSpace (last ?a)) \<or> (?b \<noteq> [] \<and> isSpace (hd ?b))"
          by (simp add: adjacent_def)
        have "tcol (?A @ js '' '' @ ?J) = tjoin (tcol ?A) (tcol ?J)" by (rule tcol_space)
        also have "\<dots> = tjoin (tcol ?a) (tcol ?b)" by (simp add: tcol_trim tJ)
        also have "\<dots> = tcol (?a @ ?b)" by (rule tcol_adjacent[OF adj, symmetric])
        finally have "tcol (rejoin (?A # out) (js '' '' # seps)) = tcol remaining"
          by (simp add: rejoin_cons[OF out_ne])
        moreover have "separators maxLength (?A # out) (js '' '' # seps)"
          using o(3) by (simp add: separators_cons[OF out_ne])
        ultimately show ?thesis using run all
          by (intro exI[of _ "?A # out"] exI[of _ "js '' '' # seps"]) simp
      next
        case na: False
        with cut have km: "k = maxLength" by simp
        from na have la: "\<not> isSpace (last ?a)" and hb: "\<not> isSpace (hd ?b)"
          using a_ne b_ne by (auto simp: adjacent_def)
        have "trimmed ?a" using a_ne la hr hd_a by (simp add: trimmed_def)
        then have A: "?A = ?a" by (rule trim_trimmed)
        have lenA: "length ?A = maxLength" unfolding A using km True by simp
        have hJ: "\<not> isSpace (hd ?J)" using J by (simp add: trimmed_def)
        have "tcol (?A @ ?J) = tcol ?a @ tcol ?J"
          unfolding A by (rule tcol_glue[OF a_ne la J(1) hJ])
        also have "\<dots> = tcol ?a @ tcol ?b" by (simp only: tJ)
        also have "\<dots> = tcol (?a @ ?b)" by (rule tcol_glue[OF a_ne la b_ne hb, symmetric])
        finally have "tcol (rejoin (?A # out) ([] # seps)) = tcol remaining"
          by (simp add: rejoin_cons[OF out_ne])
        moreover have "separators maxLength (?A # out) ([] # seps)"
          using o(3) lenA by (simp add: separators_cons[OF out_ne])
        ultimately show ?thesis using run all
          by (intro exI[of _ "?A # out"] exI[of _ "[] # seps"]) simp
      qed
    qed
  qed
qed

lemma flatMapChunks_rejoin:
  assumes "0 < m"
  shows "\<forall>c\<in>set cs. c \<noteq> [] \<and> trimmed c \<Longrightarrow>
         \<exists>out seps. flatMapChunks m cs = Some out
               \<and> (\<forall>s\<in>set out. s \<noteq> [] \<and> trimmed s)
               \<and> separators m out seps
               \<and> tcol (rejoin out seps) = tj (map tcol cs)"
proof (induction cs)
  case Nil
  show ?case by (intro exI[of _ "[]"]) simp
next
  case (Cons c cs)
  then obtain more seps' where m: "flatMapChunks m cs = Some more"
      "\<forall>s\<in>set more. s \<noteq> [] \<and> trimmed s" "separators m more seps'"
      "tcol (rejoin more seps') = tj (map tcol cs)"
    by auto
  have c: "c \<noteq> []" "trimmed c" using Cons.prems by auto
  have "\<exists>parts sepsc. (if length c > m then splitLongChunk c m else Some [c]) = Some parts
          \<and> (\<forall>s\<in>set parts. s \<noteq> [] \<and> trimmed s) \<and> separators m parts sepsc
          \<and> tcol (rejoin parts sepsc) = tcol c"
  proof (cases "m < length c")
    case False
    with c show ?thesis by (intro exI[of _ "[c]"] exI[of _ "[]"]) simp
  next
    case True
    from splitLoop_rejoin[OF assms c(2), of "[]"] True show ?thesis
      by (simp add: splitLongChunk_def)
  qed
  then obtain parts sepsc where
    p: "(if length c > m then splitLongChunk c m else Some [c]) = Some parts"
      "\<forall>s\<in>set parts. s \<noteq> [] \<and> trimmed s" "separators m parts sepsc"
      "tcol (rejoin parts sepsc) = tcol c"
    by blast
  have parts_ne: "parts \<noteq> []"
  proof
    assume "parts = []"
    with p(4) have "tcol c = []" by simp
    then show False using c by (simp add: tcol_Nil_iff trim_trimmed)
  qed
  have run: "flatMapChunks m (c # cs) = Some (parts @ more)"
    using p(1) m(1) by simp
  show ?case
  proof (cases "more = []")
    case True
    then have "tj (map tcol cs) = []" using m(4) by simp
    with True p run show ?thesis
      by (intro exI[of _ parts] exI[of _ sepsc]) simp
  next
    case False
    from rejoin_append[OF parts_ne False p(3) m(3)]
    have s: "separators m (parts @ more) (sepsc @ js '' '' # seps')"
      and j: "rejoin (parts @ more) (sepsc @ js '' '' # seps') =
              rejoin parts sepsc @ js '' '' @ rejoin more seps'"
      by auto
    have "tcol (rejoin (parts @ more) (sepsc @ js '' '' # seps')) =
          tjoin (tcol (rejoin parts sepsc)) (tcol (rejoin more seps'))"
      unfolding j by (rule tcol_space)
    then have "tcol (rejoin (parts @ more) (sepsc @ js '' '' # seps')) = tj (map tcol (c # cs))"
      by (simp add: p(4) m(4))
    with s run p(2) m(2) show ?thesis
      by (intro exI[of _ "parts @ more"] exI[of _ "sepsc @ js '' '' # seps'"]) auto
  qed
qed

lemma tj_filter_nonempty:
  "tj (map tcol (filter (\<lambda>chunk. length chunk > 0) xs)) = tj (map tcol xs)"
  by (rule tj_filter)

lemma createOptimalTTSChunks_rejoin:
  assumes "0 < m"
  shows "\<exists>segs seps. createOptimalTTSChunks text m = Some segs
           \<and> (\<forall>s\<in>set segs. s \<noteq> [] \<and> trimmed s)
           \<and> separators m segs seps
           \<and> tcol (rejoin segs seps) = tcol text"
proof (cases "text = [] \<or> length (trim text) = 0")
  case True
  then have "trim text = []" by (auto simp: trim_def)
  then have "tcol text = []" by (simp add: tcol_Nil_iff)
  with True show ?thesis
    by (intro exI[of _ "[]"]) (simp add: createOptimalTTSChunks_def)
next
  case False
  note nonblank = this
  show ?thesis
  proof (cases "length (sentencesOf text) = 0")
    case True
    with nonblank have "createOptimalTTSChunks text m = Some [trim text]"
      by (simp add: createOptimalTTSChunks_def)
    with nonblank show ?thesis
      by (intro exI[of _ "[trim text]"] exI[of _ "[]"]) (simp add: trimmed_trim tcol_trim)
  next
    case False
    let ?g = "groupSentences m [] [] (sentencesOf text)"
    let ?cs = "filter (\<lambda>chunk. length chunk > 0) ?g"
    have "\<forall>c\<in>set ?cs. c \<noteq> [] \<and> trimmed c"
      using groupSentences_trimmed[of _ m "[]" "[]" "sentencesOf text"] trimmed_trim
      by fastforce
    from flatMapChunks_rejoin[OF assms this]
    obtain out seps where o: "flatMapChunks m ?cs = Some out"
        "\<forall>s\<in>set out. s \<noteq> [] \<and> trimmed s" "separators m out seps"
        "tcol (rejoin out seps) = tj (map tcol ?cs)"
      by blast
    have "tj (map tcol ?cs) = tj (map tcol ?g)" by (rule tj_filter)
    also have "\<dots> = tcol text"
      using False by (simp add: groupSentences_tcol sentencesOf_tcol)
    finally have "tcol (rejoin out seps) = tcol text" using o(4) by simp
    with o nonblank False show ?thesis
      by (intro exI[of _ out] exI[of _ seps]) (simp add: createOptimalTTSChunks_def)
  qed
qed

lemmas chunker_eval = js_def trim_def isSpace_def isTerminator_def isCapital_def boundaryAt_def
  lastIndexOf_def lastIndexFrom_numeral breakPoints_def splitLoop.simps splitLongChunk_def
  sentencesOf_def createOptimalTTSChunks_def Let_def


text \<open>
  Claim C2: every segment of \<open>createOptimalTTSChunks\<close> is at most the maximum long.
  The code breaks this where a comma followed by a space sits at index \<open>maxLength\<close>:
  \<open>lastIndexOf(', ', maxLength)\<close> finds it, and \<open>substring(0, breakPoint + 1)\<close> keeps
  \<open>maxLength + 1\<close> code units, the last of them the comma, which \<open>trim\<close> does not remove.
  For the reply below and the default maximum 50 the first segment is 51 code units long.
\<close>

theorem segment_over_maximum:
  "createOptimalTTSChunks summaryReply 50 =
     Some [js ''Sure thing, here is a summary of what we discussed,'',
           js ''and I will send the notes later today'']
   \<and> length (js ''Sure thing, here is a summary of what we discussed,'') = 51"
  by (simp add: summaryReply_def chunker_eval)

text \<open>
  Claim C4, as stated: the segments, concatenated and with white space collapsed, give back
  the trimmed text. It fails for the reply below, which is cut once inside a word (the
  forced split at 50) and once at a space: concatenated as they are the segments lose the
  space before \<open>right\<close>, and joined by spaces they gain one inside the link.
\<close>

theorem segments_do_not_concatenate_to_text:
  "createOptimalTTSChunks linkReply 50 = Some linkSegments
   \<and> spec_collapse (concat linkSegments) \<noteq> spec_collapse (trim linkReply)
   \<and> spec_collapse (spec_join linkSegments) \<noteq> spec_collapse (trim linkReply)"
proof (intro conjI)
  show "createOptimalTTSChunks linkReply 50 = Some linkSegments"
    by (simp add: linkReply_def linkSegments_def chunker_eval)
  show "spec_collapse (concat linkSegments) \<noteq> spec_collapse (trim linkReply)"
    by (simp add: linkReply_def linkSegments_def js_def trim_def isSpace_def)
  show "spec_collapse (spec_join linkSegments) \<noteq> spec_collapse (trim linkReply)"
    by (simp add: linkReply_def linkSegments_def js_def trim_def isSpace_def)
qed

text \<open>
  Claim C4, amended: for every reply text and every positive maximum the chunker returns,
  no segment is empty, and the segments give back the text stripped of leading and
  trailing white space, with white space collapsed, when they are put together with one
  space between two segments, or with nothing after a segment of exactly the maximum
  length (where the forced split has cut inside a word). In particular the code units
  other than white space are those of the text, in the same order.
\<close>

theorem segments_keep_non_space_text:
  assumes "0 < maxChunkLength"
  shows "\<exists>segments seps. createOptimalTTSChunks text maxChunkLength = Some segments
           \<and> [] \<notin> set segments
           \<and> separators maxChunkLength segments seps
           \<and> spec_collapse (rejoin segments seps) = spec_collapse (trim text)
           \<and> nonSpace (concat segments) = nonSpace (trim text)"
proof -
  from createOptimalTTSChunks_rejoin[OF assms, of "text"]
  obtain segs seps where r: "createOptimalTTSChunks text maxChunkLength = Some segs"
      "\<forall>s\<in>set segs. s \<noteq> [] \<and> trimmed s" "separators maxChunkLength segs seps"
      "tcol (rejoin segs seps) = tcol text"
    by blast
  from createOptimalTTSChunks_total[OF assms, of "text"] r(1)
  have n: "concat (map nonSpace segs) = nonSpace text" by auto
  have "trimmed (rejoin segs seps)"
  proof (cases "segs = []")
    case True
    then show ?thesis by (simp add: trimmed_def)
  next
    case False
    from rejoin_trimmed[OF False r(2,3)] show ?thesis by simp
  qed
  then have "tcol (rejoin segs seps) = col False (rejoin segs seps)"
    by (simp add: tcol_def trim_trimmed)
  with r(4) have "spec_collapse (rejoin segs seps) = spec_collapse (trim text)"
    by (simp add: spec_collapse_col tcol_def)
  with r n show ?thesis
    by (intro exI[of _ segs] exI[of _ seps]) (auto simp: concat_map_nonSpace nonSpace_trim)
qed

theorem segments_keep_non_space_text_witness:
  "(0::nat) < 50
   \<and> (\<exists>segments seps. createOptimalTTSChunks linkReply 50 = Some segments
           \<and> [] \<notin> set segments
           \<and> separators 50 segments seps
           \<and> spec_collapse (rejoin segments seps) = spec_collapse (trim linkReply)
           \<and> nonSpace (concat segments) = nonSpace (trim linkReply))
   \<and> separators 50 linkSegments [[], js '' '']
   \<and> spec_collapse (rejoin linkSegments [[], js '' '']) = spec_collapse (trim linkReply)"
proof -
  have h: "(0::nat) < 50" by simp
  have s: "separators 50 linkSegments [[], js '' '']"
    by (simp add: linkSegments_def js_def)
  have c: "spec_collapse (rejoin linkSegments [[], js '' '']) = spec_collapse (trim linkReply)"
    by (simp add: linkReply_def linkSegments_def js_def trim_def isSpace_def)
  from segments_keep_non_space_text[OF h, of linkReply] h s c show ?thesis by (simp only: simp_thms)
qed

section \<open>Properties of the session manager\<close>

lemma idle_finally [simp]: "finallyBlock s = idle"
  by (simp add: finallyBlock_def idle_def)

lemma small_buffer:
  assumes "currentSessionId s = Some fileId" "fileId \<noteq> []" "\<not> inProgress s"
    "length (completeBuffer sv s) < 1000"
  shows "onMessage sv s UserAudioEnd = Some (idle, [])"
  using assms by (cases s) (auto simp: onMessage_def onUserAudioEnd_def idle_def)

lemma chunks_appended:
  assumes "currentSessionId s = Some sessionId" "sessionId \<noteq> []" "\<forall>c\<in>set cs. c \<noteq> []"
  shows "onMessages sv s (map (\<lambda>c. UserAudioChunk (Some c)) cs) =
           Some (s\<lparr>audioChunks := audioChunks s @ cs\<rparr>, [])"
  using assms
proof (induction cs arbitrary: s)
  case Nil
  then show ?case by simp
next
  case (Cons c cs)
  have "onMessage sv s (UserAudioChunk (Some c)) = Some (s\<lparr>audioChunks := audioChunks s @ [c]\<rparr>, [])"
    using Cons.prems by (simp add: onMessage_def)
  moreover have "onMessages sv (s\<lparr>audioChunks := audioChunks s @ [c]\<rparr>)
                   (map (\<lambda>c. UserAudioChunk (Some c)) cs) =
                 Some (s\<lparr>audioChunks := (audioChunks s @ [c]) @ cs\<rparr>, [])"
    using Cons.IH[of "s\<lparr>audioChunks := audioChunks s @ [c]\<rparr>"] Cons.prems by simp
  ultimately show ?case by simp
qed

lemma chunker_default_total: "\<exists>segs. createOptimalTTSChunks text 50 = Some segs"
  using createOptimalTTSChunks_total[of 50 "text"] by auto

lemma ttsLoop_all_resolved:
  "\<forall>(j, c)\<in>set (List.enumerate i cs). speech sv j c = Inr (audio j) \<Longrightarrow>
   ttsLoop sv n i cs =
     (concat (map (\<lambda>(j, c). [SpeechCreate c, SpeechAudio (audio j),
                               WsSend (AiAudio (toBase64 sv (audio j)) (j = n - 1))])
                  (List.enumerate i cs)), None)"
  by (induction cs arbitrary: i) (simp_all add: Let_def)

lemma ttsLoop_first_rejected:
  "k < length cs \<Longrightarrow> speech sv (i + k) (cs ! k) = Inl e \<Longrightarrow>
   \<forall>j<k. \<exists>a. speech sv (i + j) (cs ! j) = Inr a \<Longrightarrow>
   snd (ttsLoop sv n i cs) = Some e"
proof (induction cs arbitrary: i k)
  case Nil
  then show ?case by simp
next
  case (Cons c cs)
  show ?case
  proof (cases k)
    case 0
    with Cons.prems show ?thesis by (simp add: Let_def)
  next
    case (Suc k')
    from Cons.prems(3) Suc obtain a where a: "speech sv i c = Inr a"
      by (metis add.right_neutral nth_Cons_0 zero_less_Suc)
    have "snd (ttsLoop sv n (Suc i) cs) = Some e"
    proof (rule Cons.IH[of k'])
      show "k' < length cs" using Cons.prems(1) Suc by simp
      show "speech sv (Suc i + k') (cs ! k') = Inl e" using Cons.prems(2) Suc by simp
      show "\<forall>j<k'. \<exists>a. speech sv (Suc i + j) (cs ! j) = Inr a"
      proof (intro allI impI)
        fix j assume "j < k'"
        then have "Suc j < k" using Suc by simp
        with Cons.prems(3) have "\<exists>a. speech sv (i + Suc j) ((c # cs) ! Suc j) = Inr a" by blast
        then show "\<exists>a. speech sv (Suc i + j) (cs ! j) = Inr a" by simp
      qed
    qed
    with a show ?thesis by (auto simp: Let_def split: prod.splits)
  qed
qed

lemma ttsLoop_rejected_at:
  "k < length cs \<Longrightarrow> speech sv (i + k) (cs ! k) = Inl e \<Longrightarrow>
   \<forall>(j, c)\<in>set (List.enumerate i (take k cs)). speech sv j c = Inr (audio j) \<Longrightarrow>
   i + length cs \<le> n \<Longrightarrow>
   ttsLoop sv n i cs =
     (concat (map (\<lambda>(j, c). [SpeechCreate c, SpeechAudio (audio j),
                               WsSend (AiAudio (toBase64 sv (audio j)) False)])
                  (List.enumerate i (take k cs)))
      @ [SpeechCreate (cs ! k)], Some e)"
proof (induction cs arbitrary: i k)
  case Nil
  then show ?case by simp
next
  case (Cons c cs)
  show ?case
  proof (cases k)
    case 0
    with Cons.prems show ?thesis by (simp add: Let_def)
  next
    case (Suc k')
    have a: "speech sv i c = Inr (audio i)" using Cons.prems(3) Suc by simp
    have notlast: "i \<noteq> n - 1" using Cons.prems(1,4) Suc by simp
    have "ttsLoop sv n (Suc i) cs =
      (concat (map (\<lambda>(j, c). [SpeechCreate c, SpeechAudio (audio j),
                               WsSend (AiAudio (toBase64 sv (audio j)) False)])
                  (List.enumerate (Suc i) (take k' cs)))
      @ [SpeechCreate (cs ! k')], Some e)"
    proof (rule Cons.IH)
      show "k' < length cs" using Cons.prems(1) Suc by simp
      show "speech sv (Suc i + k') (cs ! k') = Inl e" using Cons.prems(2) Suc by simp
      show "\<forall>(j, c)\<in>set (List.enumerate (Suc i) (take k' cs)). speech sv j c = Inr (audio j)"
        using Cons.prems(3) Suc by simp
      show "Suc i + length cs \<le> n" using Cons.prems(4) by simp
    qed
    with a notlast Suc show ?thesis by (simp add: Let_def)
  qed
qed

lemma end_runs_pipeline:
  assumes "currentSessionId s = Some fileId" "fileId \<noteq> []" "\<not> inProgress s"
    "1000 \<le> length (completeBuffer sv s)"
    "turnPipeline sv (filePathOf fileId) (completeBuffer sv s) = Some (effects, thrown)"
  shows "onMessage sv s UserAudioEnd =
           Some (idle, effects @ (case thrown of None \<Rightarrow> [] | Some err \<Rightarrow> [WsSend (ErrorMessage err)]))"
proof -
  have "audioChunks s \<noteq> []" using assms(4) by (auto simp: completeBuffer_def)
  with assms show ?thesis by (simp add: onMessage_def onUserAudioEnd_def)
qed

lemma chunker_default_not_None: "createOptimalTTSChunks text 50 \<noteq> None"
  using chunker_default_total[of "text"] by auto

lemma turnPipeline_total: "\<exists>effects thrown. turnPipeline sv filePath buffer = Some (effects, thrown)"
  by (auto simp: turnPipeline_def Let_def chunker_default_not_None
           split: option.splits sum.splits prod.splits)

lemma turnPipeline_writes_first:
  "turnPipeline sv filePath buffer = Some (effects, thrown) \<Longrightarrow>
   \<exists>rest. effects = WriteFile filePath buffer # rest"
  by (auto simp: turnPipeline_def Let_def split: option.splits sum.splits prod.splits)

lemma apology_reply: "concat (map deltaContent apologyDeltas) = apologyReply"
  by (simp add: apologyDeltas_def apologyReply_def deltaContent_def js_def)

lemma apology_segments:
  "createOptimalTTSChunks apologyReply 50 = Some [apology, apology, apology]"
  by (simp add: apologyReply_def apology_def chunker_eval)

lemma capturing_buffer: "completeBuffer sv capturing = fromBase64 sv (replicate 1336 (of_char CHR ''A''))"
  by (simp add: completeBuffer_def capturing_def)

lemma capturing_path: "filePathOf (js ''7d444840-9dc0-11d1-b245-5ffdce74fad2'') = capturingPath"
  by (simp add: filePathOf_def capturingPath_def js_def)

lemma example_fields:
  "writeFile exampleServices path buffer = None"
  "transcribe exampleServices path = Inr (js ''hello'')"
  "chatStream exampleServices transcript = Inr apologyDeltas"
  "speech exampleServices i segment = Inr [0, 0, 0]"
  "fromBase64 exampleServices (replicate 1336 c) = replicate 1002 0"
  by (simp_all add: exampleServices_def)

lemma example_audio: "toBase64 exampleServices [0, 0, 0] = js ''AAAA''"
proof -
  have "replicate 4 c = [c, c, c, c]" for c :: nat
    by (simp add: numeral_eq_Suc)
  then show ?thesis by (simp add: exampleServices_def js_def)
qed

lemma capturing_active:
  "currentSessionId capturing = Some (js ''7d444840-9dc0-11d1-b245-5ffdce74fad2'')"
  "js ''7d444840-9dc0-11d1-b245-5ffdce74fad2'' \<noteq> []"
  "\<not> inProgress capturing"
  by (simp_all add: capturing_def js_def)

lemma noise_active:
  "currentSessionId noise = Some (js ''7d444840-9dc0-11d1-b245-5ffdce74fad2'')"
  "\<not> inProgress noise"
  by (simp_all add: noise_def)

text \<open>
  Claim C1, as stated: a \<open>start\<close> received while the session is capturing changes nothing.
  The handler ignores a \<open>start\<close> only while \<open>inProgress\<close> is set, which is during
  processing; for a capturing session it takes a new session id and empties the buffer.
\<close>

theorem start_while_capturing_restarts:
  "onMessage exampleServices capturing UserAudioStart =
     Some (\<lparr>audioChunks = [], inProgress = False,
            currentSessionId = Some (js ''3b241101-e2bb-4255-8caf-4136c566a962'')\<rparr>, [])
   \<and> onMessage exampleServices capturing UserAudioStart \<noteq> Some (capturing, [])"
  by (simp add: onMessage_def capturing_def exampleServices_def js_def)

text \<open>
  Claim C1, amended: a \<open>start\<close> received while a turn is processed (\<open>inProgress\<close> set)
  changes nothing; a \<open>start\<close> received in any other state, a capturing session included,
  begins a session anew (fresh session id, empty chunk buffer); a \<open>chunk\<close> or an \<open>end\<close>
  received with no session id changes nothing. None of them has an effect outside.
\<close>

theorem unexpected_signals:
  "(inProgress s \<longrightarrow> onMessage sv s UserAudioStart = Some (s, []))
   \<and> (\<not> inProgress s \<longrightarrow> onMessage sv s UserAudioStart =
         Some (\<lparr>audioChunks = [], inProgress = False, currentSessionId = Some (uuid sv)\<rparr>, []))
   \<and> (currentSessionId s = None \<longrightarrow>
         onMessage sv s (UserAudioChunk chunk) = Some (s, [])
         \<and> onMessage sv s UserAudioEnd = Some (s, []))"
  by (simp add: onMessage_def onUserAudioEnd_def)

theorem unexpected_signals_witness:
  "inProgress processing
   \<and> onMessage exampleServices processing UserAudioStart = Some (processing, [])
   \<and> \<not> inProgress capturing
   \<and> onMessage exampleServices capturing UserAudioStart =
        Some (\<lparr>audioChunks = [], inProgress = False,
               currentSessionId = Some (uuid exampleServices)\<rparr>, [])
   \<and> currentSessionId idle = None
   \<and> onMessage exampleServices idle (UserAudioChunk (Some (js ''AAAA''))) = Some (idle, [])
   \<and> onMessage exampleServices idle UserAudioEnd = Some (idle, [])"
proof -
  have p: "inProgress processing" by (simp add: processing_def)
  have c: "\<not> inProgress capturing" by (simp add: capturing_def)
  have i: "currentSessionId idle = None" by (simp add: idle_def)
  from unexpected_signals[of processing exampleServices] p
  have 1: "onMessage exampleServices processing UserAudioStart = Some (processing, [])"
    by (rule conjunct1[THEN mp])
  from unexpected_signals[of capturing exampleServices] c
  have 2: "onMessage exampleServices capturing UserAudioStart =
        Some (\<lparr>audioChunks = [], inProgress = False,
               currentSessionId = Some (uuid exampleServices)\<rparr>, [])"
    by (rule conjunct2[THEN conjunct1, THEN mp])
  from unexpected_signals[of idle exampleServices "Some (js ''AAAA'')"] i
  have 3: "onMessage exampleServices idle (UserAudioChunk (Some (js ''AAAA''))) = Some (idle, [])
           \<and> onMessage exampleServices idle UserAudioEnd = Some (idle, [])"
    by (rule conjunct2[THEN conjunct2, THEN mp])
  show ?thesis by (simp only: p c i 1 2 3 simp_thms)
qed

text \<open>
  Claim C5: after a \<open>start\<close> and any sequence of \<open>chunk\<close> messages with non-empty chunks,
  the buffer assembled by the \<open>end\<close> handler is the concatenation of the decoded chunks
  in the order of their arrival, and that buffer is what the handler writes to the file
  of the session when it is 1000 bytes or more.
\<close>

theorem utterance_buffer_concatenation:
  assumes "\<not> inProgress s" "uuid sv \<noteq> []" "\<forall>c\<in>set cs. c \<noteq> []"
  shows "\<exists>s'. onMessages sv s (UserAudioStart # map (\<lambda>c. UserAudioChunk (Some c)) cs) = Some (s', [])
           \<and> completeBuffer sv s' = concat (map (fromBase64 sv) cs)
           \<and> (1000 \<le> length (concat (map (fromBase64 sv) cs)) \<longrightarrow>
                (\<exists>s'' effects. onMessage sv s' UserAudioEnd =
                   Some (s'', WriteFile (filePathOf (uuid sv)) (concat (map (fromBase64 sv) cs))
                              # effects)))"
proof -
  let ?s1 = "s\<lparr>currentSessionId := Some (uuid sv), audioChunks := [], inProgress := False\<rparr>"
  let ?s2 = "?s1\<lparr>audioChunks := audioChunks ?s1 @ cs\<rparr>"
  have start: "onMessage sv s UserAudioStart = Some (?s1, [])"
    using assms(1) by (simp add: onMessage_def)
  have chunks: "onMessages sv ?s1 (map (\<lambda>c. UserAudioChunk (Some c)) cs) = Some (?s2, [])"
    by (rule chunks_appended[of ?s1 "uuid sv"]) (use assms in simp_all)
  have all: "onMessages sv s (UserAudioStart # map (\<lambda>c. UserAudioChunk (Some c)) cs) = Some (?s2, [])"
    using start chunks by simp
  have buf: "completeBuffer sv ?s2 = concat (map (fromBase64 sv) cs)"
    by (simp add: completeBuffer_def)
  have "\<exists>s'' effects. onMessage sv ?s2 UserAudioEnd =
           Some (s'', WriteFile (filePathOf (uuid sv)) (concat (map (fromBase64 sv) cs)) # effects)"
    if big: "1000 \<le> length (concat (map (fromBase64 sv) cs))"
  proof -
    obtain effects thrown where
      tp: "turnPipeline sv (filePathOf (uuid sv)) (completeBuffer sv ?s2) = Some (effects, thrown)"
      using turnPipeline_total by blast
    then obtain rest where rest: "effects = WriteFile (filePathOf (uuid sv)) (completeBuffer sv ?s2) # rest"
      using turnPipeline_writes_first by blast
    have "onMessage sv ?s2 UserAudioEnd =
           Some (idle, effects @ (case thrown of None \<Rightarrow> [] | Some err \<Rightarrow> [WsSend (ErrorMessage err)]))"
      by (rule end_runs_pipeline[OF _ assms(2) _ _ tp]) (use big buf in simp_all)
    then show ?thesis unfolding rest buf by simp
  qed
  with all buf show ?thesis by blast
qed

theorem utterance_buffer_concatenation_witness:
  "\<not> inProgress idle \<and> uuid exampleServices \<noteq> [] \<and> [] \<notin> set twoChunks
   \<and> 1000 \<le> length (concat (map (fromBase64 exampleServices) twoChunks))
   \<and> (\<exists>s'. onMessages exampleServices idle
               (UserAudioStart # map (\<lambda>c. UserAudioChunk (Some c)) twoChunks) = Some (s', [])
         \<and> completeBuffer exampleServices s' = concat (map (fromBase64 exampleServices) twoChunks)
         \<and> (\<exists>s'' effects. onMessage exampleServices s' UserAudioEnd =
                 Some (s'', WriteFile (filePathOf (uuid exampleServices))
                              (concat (map (fromBase64 exampleServices) twoChunks))
                            # effects)))"
proof -
  have a: "\<not> inProgress idle" by (simp add: idle_def)
  have b: "uuid exampleServices \<noteq> []" by (simp add: exampleServices_def js_def)
  have n: "[] \<notin> set twoChunks" by (simp add: twoChunks_def)
  then have c: "\<forall>c\<in>set twoChunks. c \<noteq> []" by blast
  have d: "1000 \<le> length (concat (map (fromBase64 exampleServices) twoChunks))"
    by (simp add: twoChunks_def exampleServices_def)
  from utterance_buffer_concatenation[OF a b c] d
  have "\<exists>s'. onMessages exampleServices idle
               (UserAudioStart # map (\<lambda>c. UserAudioChunk (Some c)) twoChunks) = Some (s', [])
         \<and> completeBuffer exampleServices s' = concat (map (fromBase64 exampleServices) twoChunks)
         \<and> (\<exists>s'' effects. onMessage exampleServices s' UserAudioEnd =
                 Some (s'', WriteFile (filePathOf (uuid exampleServices))
                              (concat (map (fromBase64 exampleServices) twoChunks))
                            # effects))"
    by blast
  with a b n d show ?thesis by (simp only: simp_thms)
qed

text \<open>
  Claim C6: when the buffer assembled at \<open>end\<close> is under 1000 bytes, the handler has no
  effect outside (no file written, no transcription, generation or synthesis call, no
  message sent, so no error message either) and the session is idle afterwards: chunk
  buffer empty, no session id, nothing in progress.
\<close>

theorem small_buffer_discarded:
  assumes "currentSessionId s = Some fileId" "fileId \<noteq> []" "\<not> inProgress s"
    "length (completeBuffer sv s) < 1000"
  shows "onMessage sv s UserAudioEnd = Some (idle, [])"
  using assms by (cases s) (auto simp: onMessage_def onUserAudioEnd_def idle_def)

theorem small_buffer_discarded_witness:
  "currentSessionId noise = Some (js ''7d444840-9dc0-11d1-b245-5ffdce74fad2'')
   \<and> js ''7d444840-9dc0-11d1-b245-5ffdce74fad2'' \<noteq> []
   \<and> \<not> inProgress noise
   \<and> length (completeBuffer exampleServices noise) < 1000
   \<and> onMessage exampleServices noise UserAudioEnd = Some (idle, [])"
proof -
  have l: "length (completeBuffer exampleServices noise) < 1000"
    by (simp add: completeBuffer_def noise_def exampleServices_def js_def)
  note e = small_buffer_discarded[OF noise_active(1) capturing_active(2) noise_active(2) l]
  show ?thesis by (simp only: noise_active capturing_active(2) l e simp_thms)
qed

lemma failingTranscription_fields:
  "writeFile failingTranscription path buffer = None"
  "transcribe failingTranscription path = Inl (js ''Connection error.'')"
  "fromBase64 failingTranscription = fromBase64 exampleServices"
  by (simp_all add: failingTranscription_def exampleServices_def)

lemma failingGeneration_fields:
  "writeFile failingGeneration path buffer = None"
  "transcribe failingGeneration path = Inr (js ''hello'')"
  "chatStream failingGeneration transcript = Inl (js ''Connection error.'')"
  "fromBase64 failingGeneration = fromBase64 exampleServices"
  by (simp_all add: failingGeneration_def exampleServices_def)

lemma failingSynthesis_fields:
  "writeFile failingSynthesis path buffer = None"
  "transcribe failingSynthesis path = Inr (js ''hello'')"
  "chatStream failingSynthesis transcript = Inr apologyDeltas"
  "speech failingSynthesis 0 segment = Inr [0, 0, 0]"
  "speech failingSynthesis (Suc 0) segment = Inl (js ''Rate limit reached'')"
  "toBase64 failingSynthesis = toBase64 exampleServices"
  "fromBase64 failingSynthesis = fromBase64 exampleServices"
  by (simp_all add: failingSynthesis_def exampleServices_def)

lemma blankServices_fields:
  "writeFile blankServices path buffer = None"
  "transcribe blankServices path = Inr (js ''hello'')"
  "chatStream blankServices transcript = Inr [Some [10], None, Some (js ''  '')]"
  "fromBase64 blankServices = fromBase64 exampleServices"
  by (simp_all add: blankServices_def exampleServices_def)

lemma capturing_big:
  "fromBase64 sv = fromBase64 exampleServices \<Longrightarrow> completeBuffer sv capturing = replicate 1002 0"
  "fromBase64 sv = fromBase64 exampleServices \<Longrightarrow> 1000 \<le> length (completeBuffer sv capturing)"
  by (simp_all add: capturing_buffer example_fields)

lemma apology_run:
  "turnPipeline exampleServices capturingPath (replicate 1002 0) =
     Some ([WriteFile capturingPath (replicate 1002 0), Transcribe capturingPath,
        ChatCreate (js ''hello''),
        SpeechCreate apology, SpeechAudio [0, 0, 0], WsSend (AiAudio (js ''AAAA'') False),
        SpeechCreate apology, SpeechAudio [0, 0, 0], WsSend (AiAudio (js ''AAAA'') False),
        SpeechCreate apology, SpeechAudio [0, 0, 0], WsSend (AiAudio (js ''AAAA'') True)], None)"
  by (simp add: turnPipeline_def example_fields example_audio apology_reply apology_segments)

lemma apology_run_rejected:
  "turnPipeline failingSynthesis capturingPath (replicate 1002 0) =
     Some ([WriteFile capturingPath (replicate 1002 0), Transcribe capturingPath,
        ChatCreate (js ''hello''),
        SpeechCreate apology, SpeechAudio [0, 0, 0], WsSend (AiAudio (js ''AAAA'') False),
        SpeechCreate apology], Some (js ''Rate limit reached''))"
  by (simp add: turnPipeline_def failingSynthesis_fields example_audio apology_reply
        apology_segments)

text \<open>
  Claim C7: for a turn that the \<open>end\<close> handler takes up (a session id is set and nothing
  is in progress), whatever the services do, the handler returns with the session idle:
  chunk buffer empty, no session id, nothing in progress. When the pipeline runs (the
  buffer has 1000 bytes or more and is written) and the transcription, the generation or
  the synthesis of a segment throws, the last thing the handler does outside is to send
  the message \<open>{type: 'error', message}\<close> with the message of that error.
\<close>

theorem turn_failure_reported_session_reset:
  assumes "currentSessionId s = Some fileId" "fileId \<noteq> []" "\<not> inProgress s"
  shows "\<exists>effects. onMessage sv s UserAudioEnd = Some (idle, effects) \<and>
     (1000 \<le> length (completeBuffer sv s)
        \<and> writeFile sv (filePathOf fileId) (completeBuffer sv s) = None \<longrightarrow>
      (\<forall>e. transcribe sv (filePathOf fileId) = Inl e \<longrightarrow>
           (\<exists>before. effects = before @ [WsSend (ErrorMessage e)]))
      \<and> (\<forall>t e. transcribe sv (filePathOf fileId) = Inr t \<and> chatStream sv t = Inl e \<longrightarrow>
           (\<exists>before. effects = before @ [WsSend (ErrorMessage e)]))
      \<and> (\<forall>t deltas segments k e.
            transcribe sv (filePathOf fileId) = Inr t \<and> chatStream sv t = Inr deltas
            \<and> createOptimalTTSChunks (concat (map deltaContent deltas)) 50 = Some segments
            \<and> k < length segments \<and> speech sv k (segments ! k) = Inl e
            \<and> (\<forall>j<k. \<exists>audio. speech sv j (segments ! j) = Inr audio) \<longrightarrow>
           (\<exists>before. effects = before @ [WsSend (ErrorMessage e)])))"
proof (cases "1000 \<le> length (completeBuffer sv s)")
  case False
  then have "length (completeBuffer sv s) < 1000" by simp
  from small_buffer[OF assms this] False show ?thesis by simp
next
  case True
  let ?path = "filePathOf fileId"
  let ?buf = "completeBuffer sv s"
  obtain effects thrown where tp: "turnPipeline sv ?path ?buf = Some (effects, thrown)"
    using turnPipeline_total by blast
  let ?out = "effects @ (case thrown of None \<Rightarrow> [] | Some err \<Rightarrow> [WsSend (ErrorMessage err)])"
  have run: "onMessage sv s UserAudioEnd = Some (idle, ?out)"
    by (rule end_runs_pipeline[OF assms True tp])
  have thrown: "thrown = Some e \<Longrightarrow> \<exists>before. ?out = before @ [WsSend (ErrorMessage e)]" for e
    by simp
  have a: "thrown = Some e" if "writeFile sv ?path ?buf = None" "transcribe sv ?path = Inl e" for e
    using tp that by (simp add: turnPipeline_def)
  have b: "thrown = Some e"
    if "writeFile sv ?path ?buf = None" "transcribe sv ?path = Inr t" "chatStream sv t = Inl e" for t e
    using tp that by (simp add: turnPipeline_def)
  have c: "thrown = Some e"
    if "writeFile sv ?path ?buf = None" "transcribe sv ?path = Inr t" "chatStream sv t = Inr deltas"
      "createOptimalTTSChunks (concat (map deltaContent deltas)) 50 = Some segments"
      "k < length segments" "speech sv k (segments ! k) = Inl e"
      "\<forall>j<k. \<exists>audio. speech sv j (segments ! j) = Inr audio"
    for t deltas segments k e
  proof -
    have "snd (ttsLoop sv (length segments) 0 segments) = Some e"
      using ttsLoop_first_rejected[of k segments sv 0 e "length segments"] that(5,6,7) by simp
    with tp that(1-4) show ?thesis
      by (auto simp: turnPipeline_def Let_def split: prod.splits)
  qed
  show ?thesis
    apply (rule exI[of _ ?out])
    apply (intro conjI impI allI run)
      apply (rule thrown, rule a, blast, blast)
     apply (rule thrown, rule b, blast, blast, blast)
    apply (rule thrown, erule conjE, (erule conjE)+, rule c; assumption)
    done
qed

theorem turn_failure_reported_session_reset_witness:
  "currentSessionId capturing = Some (js ''7d444840-9dc0-11d1-b245-5ffdce74fad2'')
   \<and> js ''7d444840-9dc0-11d1-b245-5ffdce74fad2'' \<noteq> []
   \<and> \<not> inProgress capturing
   \<and> 1000 \<le> length (completeBuffer failingTranscription capturing)
   \<and> writeFile failingTranscription capturingPath
         (completeBuffer failingTranscription capturing) = None
   \<and> transcribe failingTranscription capturingPath = Inl (js ''Connection error.'')
   \<and> (\<exists>before. onMessage failingTranscription capturing UserAudioEnd =
          Some (idle, before @ [WsSend (ErrorMessage (js ''Connection error.''))]))
   \<and> 1000 \<le> length (completeBuffer failingGeneration capturing)
   \<and> writeFile failingGeneration capturingPath
         (completeBuffer failingGeneration capturing) = None
   \<and> transcribe failingGeneration capturingPath = Inr (js ''hello'')
   \<and> chatStream failingGeneration (js ''hello'') = Inl (js ''Connection error.'')
   \<and> (\<exists>before. onMessage failingGeneration capturing UserAudioEnd =
          Some (idle, before @ [WsSend (ErrorMessage (js ''Connection error.''))]))
   \<and> 1000 \<le> length (completeBuffer failingSynthesis capturing)
   \<and> writeFile failingSynthesis capturingPath
         (completeBuffer failingSynthesis capturing) = None
   \<and> transcribe failingSynthesis capturingPath = Inr (js ''hello'')
   \<and> chatStream failingSynthesis (js ''hello'') = Inr apologyDeltas
   \<and> createOptimalTTSChunks (concat (map deltaContent apologyDeltas)) 50
        = Some [apology, apology, apology]
   \<and> 1 < length [apology, apology, apology]
   \<and> speech failingSynthesis 1 ([apology, apology, apology] ! 1) = Inl (js ''Rate limit reached'')
   \<and> speech failingSynthesis 0 ([apology, apology, apology] ! 0) = Inr [0, 0, 0]
   \<and> (\<exists>before. onMessage failingSynthesis capturing UserAudioEnd =
          Some (idle, before @ [WsSend (ErrorMessage (js ''Rate limit reached''))]))"
proof -
  let ?id = "js ''7d444840-9dc0-11d1-b245-5ffdce74fad2''"
  have g1: "1000 \<le> length (completeBuffer failingTranscription capturing)"
    by (rule capturing_big) (rule failingTranscription_fields)
  have w1: "writeFile failingTranscription capturingPath
         (completeBuffer failingTranscription capturing) = None"
    by (rule failingTranscription_fields)
  have t1: "transcribe failingTranscription capturingPath = Inl (js ''Connection error.'')"
    by (rule failingTranscription_fields)
  from turn_failure_reported_session_reset[OF capturing_active, of failingTranscription, unfolded capturing_path]
  obtain effects1 where
    r1: "onMessage failingTranscription capturing UserAudioEnd = Some (idle, effects1)"
    and i1: "1000 \<le> length (completeBuffer failingTranscription capturing)
        \<and> writeFile failingTranscription capturingPath
              (completeBuffer failingTranscription capturing) = None \<longrightarrow>
      (\<forall>e. transcribe failingTranscription capturingPath = Inl e \<longrightarrow>
           (\<exists>before. effects1 = before @ [WsSend (ErrorMessage e)]))"
    by blast
  from i1 g1 w1 t1 obtain before1 where
    "effects1 = before1 @ [WsSend (ErrorMessage (js ''Connection error.''))]"
    by blast
  with r1 have c1: "\<exists>before. onMessage failingTranscription capturing UserAudioEnd =
          Some (idle, before @ [WsSend (ErrorMessage (js ''Connection error.''))])"
    by blast

  have g2: "1000 \<le> length (completeBuffer failingGeneration capturing)"
    by (rule capturing_big) (rule failingGeneration_fields)
  have w2: "writeFile failingGeneration capturingPath
         (completeBuffer failingGeneration capturing) = None"
    by (rule failingGeneration_fields)
  have t2: "transcribe failingGeneration capturingPath = Inr (js ''hello'')"
    by (rule failingGeneration_fields)
  have h2: "chatStream failingGeneration (js ''hello'') = Inl (js ''Connection error.'')"
    by (rule failingGeneration_fields)
  from turn_failure_reported_session_reset[OF capturing_active, of failingGeneration, unfolded capturing_path]
  obtain effects2 where
    r2: "onMessage failingGeneration capturing UserAudioEnd = Some (idle, effects2)"
    and i2: "1000 \<le> length (completeBuffer failingGeneration capturing)
        \<and> writeFile failingGeneration capturingPath
              (completeBuffer failingGeneration capturing) = None \<longrightarrow>
      (\<forall>t e. transcribe failingGeneration capturingPath = Inr t
              \<and> chatStream failingGeneration t = Inl e \<longrightarrow>
           (\<exists>before. effects2 = before @ [WsSend (ErrorMessage e)]))"
    by blast
  from i2 g2 w2 t2 h2 obtain before2 where
    "effects2 = before2 @ [WsSend (ErrorMessage (js ''Connection error.''))]"
    by blast
  with r2 have c2: "\<exists>before. onMessage failingGeneration capturing UserAudioEnd =
          Some (idle, before @ [WsSend (ErrorMessage (js ''Connection error.''))])"
    by blast

  have g3: "1000 \<le> length (completeBuffer failingSynthesis capturing)"
    by (rule capturing_big) (rule failingSynthesis_fields)
  have w3: "writeFile failingSynthesis capturingPath
         (completeBuffer failingSynthesis capturing) = None"
    by (rule failingSynthesis_fields)
  have t3: "transcribe failingSynthesis capturingPath = Inr (js ''hello'')"
    by (rule failingSynthesis_fields)
  have h3: "chatStream failingSynthesis (js ''hello'') = Inr apologyDeltas"
    by (rule failingSynthesis_fields)
  have s3: "createOptimalTTSChunks (concat (map deltaContent apologyDeltas)) 50
        = Some [apology, apology, apology]"
    by (simp only: apology_reply apology_segments)
  have k3: "1 < length [apology, apology, apology]" by simp
  have f3: "speech failingSynthesis 1 ([apology, apology, apology] ! 1)
              = Inl (js ''Rate limit reached'')"
    by (simp add: failingSynthesis_fields)
  have p3: "\<forall>j<1. \<exists>audio. speech failingSynthesis j ([apology, apology, apology] ! j) = Inr audio"
    by (simp add: failingSynthesis_fields)
  from turn_failure_reported_session_reset[OF capturing_active, of failingSynthesis, unfolded capturing_path]
  obtain effects3 where
    r3: "onMessage failingSynthesis capturing UserAudioEnd = Some (idle, effects3)"
    and i3: "1000 \<le> length (completeBuffer failingSynthesis capturing)
        \<and> writeFile failingSynthesis capturingPath
              (completeBuffer failingSynthesis capturing) = None \<longrightarrow>
      (\<forall>t deltas segments k e.
            transcribe failingSynthesis capturingPath = Inr t
            \<and> chatStream failingSynthesis t = Inr deltas
            \<and> createOptimalTTSChunks (concat (map deltaContent deltas)) 50 = Some segments
            \<and> k < length segments \<and> speech failingSynthesis k (segments ! k) = Inl e
            \<and> (\<forall>j<k. \<exists>audio. speech failingSynthesis j (segments ! j) = Inr audio) \<longrightarrow>
           (\<exists>before. effects3 = before @ [WsSend (ErrorMessage e)]))"
    by blast
  from i3 g3 w3 have "\<forall>t deltas segments k e.
            transcribe failingSynthesis capturingPath = Inr t
            \<and> chatStream failingSynthesis t = Inr deltas
            \<and> createOptimalTTSChunks (concat (map deltaContent deltas)) 50 = Some segments
            \<and> k < length segments \<and> speech failingSynthesis k (segments ! k) = Inl e
            \<and> (\<forall>j<k. \<exists>audio. speech failingSynthesis j (segments ! j) = Inr audio) \<longrightarrow>
           (\<exists>before. effects3 = before @ [WsSend (ErrorMessage e)])"
    by blast
  from this[rule_format, of "js ''hello''" apologyDeltas "[apology, apology, apology]" 1
              "js ''Rate limit reached''"] t3 h3 s3 k3 f3 p3
  obtain before3 where
    "effects3 = before3 @ [WsSend (ErrorMessage (js ''Rate limit reached''))]"
    by blast
  with r3 have c3: "\<exists>before. onMessage failingSynthesis capturing UserAudioEnd =
          Some (idle, before @ [WsSend (ErrorMessage (js ''Rate limit reached''))])"
    by blast
  have q3: "speech failingSynthesis 0 ([apology, apology, apology] ! 0) = Inr [0, 0, 0]"
    by (simp add: failingSynthesis_fields)
  show ?thesis
    using capturing_active g1 w1 t1 c1 g2 w2 t2 h2 c2 g3 w3 t3 h3 s3 k3 f3 q3 c3
    by (simp only: simp_thms)
qed

text \<open>
  Claim C8, as stated: one \<open>ai_audio\<close> message for every segment, each carrying the
  position of its segment. The message has the fields \<open>type\<close>, \<open>chunk\<close> and \<open>done\<close> only:
  in the first turn below the messages of the first and the second segment are the same
  value. And when a synthesis call throws, the segments from that one on have no message:
  in the second turn below the second call fails, one \<open>ai_audio\<close> message is sent for
  three segments, and none has \<open>done\<close> set.
\<close>

theorem ai_audio_without_position:
  "onMessage exampleServices capturing UserAudioEnd =
     Some (idle,
       [WriteFile capturingPath (replicate 1002 0), Transcribe capturingPath,
        ChatCreate (js ''hello''),
        SpeechCreate apology, SpeechAudio [0, 0, 0], WsSend (AiAudio (js ''AAAA'') False),
        SpeechCreate apology, SpeechAudio [0, 0, 0], WsSend (AiAudio (js ''AAAA'') False),
        SpeechCreate apology, SpeechAudio [0, 0, 0], WsSend (AiAudio (js ''AAAA'') True)])
   \<and> onMessage failingSynthesis capturing UserAudioEnd =
     Some (idle,
       [WriteFile capturingPath (replicate 1002 0), Transcribe capturingPath,
        ChatCreate (js ''hello''),
        SpeechCreate apology, SpeechAudio [0, 0, 0], WsSend (AiAudio (js ''AAAA'') False),
        SpeechCreate apology, WsSend (ErrorMessage (js ''Rate limit reached''))])"
proof
  have b1: "completeBuffer exampleServices capturing = replicate 1002 0"
    by (rule capturing_big) simp
  have g1: "1000 \<le> length (completeBuffer exampleServices capturing)"
    by (rule capturing_big) simp
  from end_runs_pipeline[OF capturing_active g1, unfolded capturing_path b1, OF apology_run]
  show "onMessage exampleServices capturing UserAudioEnd =
     Some (idle,
       [WriteFile capturingPath (replicate 1002 0), Transcribe capturingPath,
        ChatCreate (js ''hello''),
        SpeechCreate apology, SpeechAudio [0, 0, 0], WsSend (AiAudio (js ''AAAA'') False),
        SpeechCreate apology, SpeechAudio [0, 0, 0], WsSend (AiAudio (js ''AAAA'') False),
        SpeechCreate apology, SpeechAudio [0, 0, 0], WsSend (AiAudio (js ''AAAA'') True)])"
    by simp
  have b2: "completeBuffer failingSynthesis capturing = replicate 1002 0"
    by (rule capturing_big) (rule failingSynthesis_fields)
  have g2: "1000 \<le> length (completeBuffer failingSynthesis capturing)"
    by (rule capturing_big) (rule failingSynthesis_fields)
  from end_runs_pipeline[OF capturing_active g2, unfolded capturing_path b2, OF apology_run_rejected]
  show "onMessage failingSynthesis capturing UserAudioEnd =
     Some (idle,
       [WriteFile capturingPath (replicate 1002 0), Transcribe capturingPath,
        ChatCreate (js ''hello''),
        SpeechCreate apology, SpeechAudio [0, 0, 0], WsSend (AiAudio (js ''AAAA'') False),
        SpeechCreate apology, WsSend (ErrorMessage (js ''Rate limit reached''))])"
    by simp
qed

text \<open>
  Claim C8, amended: the server sends one \<open>ai_audio\<close> message for every segment up to
  the first synthesis call that fails, in the order of the segments, each carrying the
  base64 text of the audio of its segment and the flag \<open>done\<close> (the position of a
  segment is the position of its message among those sent; the message has no field for
  it), and the speech request for a segment is issued after the audio of the segment
  before it has been received and sent. When every call succeeds, every segment has its
  message and \<open>done\<close> is set on the message of the last segment and on no other. When the
  call for a segment fails, that segment and those after it have no message, no message
  sent has \<open>done\<close> set, and the error message follows the failed request.
\<close>

theorem one_ai_audio_per_segment:
  assumes "currentSessionId s = Some fileId" "fileId \<noteq> []" "\<not> inProgress s"
    "1000 \<le> length (completeBuffer sv s)"
    "writeFile sv (filePathOf fileId) (completeBuffer sv s) = None"
    "transcribe sv (filePathOf fileId) = Inr transcript"
    "chatStream sv transcript = Inr deltas"
    "createOptimalTTSChunks (concat (map deltaContent deltas)) 50 = Some segments"
  shows "((\<forall>(i, segment)\<in>set (List.enumerate 0 segments). speech sv i segment = Inr (audio i)) \<longrightarrow>
          onMessage sv s UserAudioEnd =
           Some (idle,
             [WriteFile (filePathOf fileId) (completeBuffer sv s),
              Transcribe (filePathOf fileId), ChatCreate transcript]
             @ concat (map (\<lambda>(i, segment).
                              [SpeechCreate segment, SpeechAudio (audio i),
                               WsSend (AiAudio (toBase64 sv (audio i)) (Suc i = length segments))])
                           (List.enumerate 0 segments))))
       \<and> (\<forall>k e. k < length segments \<and> speech sv k (segments ! k) = Inl e
              \<and> (\<forall>(i, segment)\<in>set (List.enumerate 0 (take k segments)).
                    speech sv i segment = Inr (audio i)) \<longrightarrow>
          onMessage sv s UserAudioEnd =
           Some (idle,
             [WriteFile (filePathOf fileId) (completeBuffer sv s),
              Transcribe (filePathOf fileId), ChatCreate transcript]
             @ concat (map (\<lambda>(i, segment).
                              [SpeechCreate segment, SpeechAudio (audio i),
                               WsSend (AiAudio (toBase64 sv (audio i)) False)])
                           (List.enumerate 0 (take k segments)))
             @ [SpeechCreate (segments ! k), WsSend (ErrorMessage e)]))"
proof (intro conjI impI allI)
  assume ok: "\<forall>(i, segment)\<in>set (List.enumerate 0 segments). speech sv i segment = Inr (audio i)"
  let ?f = "\<lambda>(j, c). [SpeechCreate c, SpeechAudio (audio j),
                           WsSend (AiAudio (toBase64 sv (audio j)) (j = length segments - 1))]"
  let ?g = "\<lambda>(i, segment). [SpeechCreate segment, SpeechAudio (audio i),
                           WsSend (AiAudio (toBase64 sv (audio i)) (Suc i = length segments))]"
  have loop: "ttsLoop sv (length segments) 0 segments =
                (concat (map ?f (List.enumerate 0 segments)), None)"
    by (rule ttsLoop_all_resolved[OF ok])
  have eq: "map ?f (List.enumerate 0 segments) = map ?g (List.enumerate 0 segments)"
    by (rule map_cong) (auto simp: in_set_enumerate_eq)
  have "ttsLoop sv (length segments) 0 segments =
                (concat (map ?g (List.enumerate 0 segments)), None)"
    using loop by (simp only: eq)
  then have "turnPipeline sv (filePathOf fileId) (completeBuffer sv s) =
          Some ([WriteFile (filePathOf fileId) (completeBuffer sv s),
                 Transcribe (filePathOf fileId), ChatCreate transcript]
                @ concat (map ?g (List.enumerate 0 segments)), None)"
    using assms(5-8) by (simp add: turnPipeline_def)
  from end_runs_pipeline[OF assms(1-4) this]
  show "onMessage sv s UserAudioEnd =
           Some (idle,
             [WriteFile (filePathOf fileId) (completeBuffer sv s),
              Transcribe (filePathOf fileId), ChatCreate transcript]
             @ concat (map ?g (List.enumerate 0 segments)))"
    by simp
next
  fix k e
  assume h: "k < length segments \<and> speech sv k (segments ! k) = Inl e
              \<and> (\<forall>(i, segment)\<in>set (List.enumerate 0 (take k segments)).
                    speech sv i segment = Inr (audio i))"
  let ?h = "\<lambda>(i, segment). [SpeechCreate segment, SpeechAudio (audio i),
                           WsSend (AiAudio (toBase64 sv (audio i)) False)]"
  have "ttsLoop sv (length segments) 0 segments =
          (concat (map ?h (List.enumerate 0 (take k segments))) @ [SpeechCreate (segments ! k)],
           Some e)"
    by (rule ttsLoop_rejected_at) (use h in simp_all)
  then have "turnPipeline sv (filePathOf fileId) (completeBuffer sv s) =
          Some ([WriteFile (filePathOf fileId) (completeBuffer sv s),
                 Transcribe (filePathOf fileId), ChatCreate transcript]
                @ concat (map ?h (List.enumerate 0 (take k segments)))
                @ [SpeechCreate (segments ! k)], Some e)"
    using assms(5-8) by (simp add: turnPipeline_def)
  from end_runs_pipeline[OF assms(1-4) this]
  show "onMessage sv s UserAudioEnd =
           Some (idle,
             [WriteFile (filePathOf fileId) (completeBuffer sv s),
              Transcribe (filePathOf fileId), ChatCreate transcript]
             @ concat (map ?h (List.enumerate 0 (take k segments)))
             @ [SpeechCreate (segments ! k), WsSend (ErrorMessage e)])"
    by simp
qed

theorem one_ai_audio_per_segment_witness:
  "currentSessionId capturing = Some (js ''7d444840-9dc0-11d1-b245-5ffdce74fad2'')
   \<and> js ''7d444840-9dc0-11d1-b245-5ffdce74fad2'' \<noteq> []
   \<and> \<not> inProgress capturing
   \<and> 1000 \<le> length (completeBuffer exampleServices capturing)
   \<and> writeFile exampleServices capturingPath (completeBuffer exampleServices capturing) = None
   \<and> transcribe exampleServices capturingPath = Inr (js ''hello'')
   \<and> chatStream exampleServices (js ''hello'') = Inr apologyDeltas
   \<and> createOptimalTTSChunks (concat (map deltaContent apologyDeltas)) 50
        = Some [apology, apology, apology]
   \<and> speech exampleServices 0 apology = Inr [0, 0, 0]
   \<and> speech exampleServices 1 apology = Inr [0, 0, 0]
   \<and> speech exampleServices 2 apology = Inr [0, 0, 0]
   \<and> onMessage exampleServices capturing UserAudioEnd =
           Some (idle,
             [WriteFile capturingPath (completeBuffer exampleServices capturing),
              Transcribe capturingPath, ChatCreate (js ''hello'')]
             @ concat (map (\<lambda>(i, segment).
                              [SpeechCreate segment, SpeechAudio [0, 0, 0],
                               WsSend (AiAudio (toBase64 exampleServices [0, 0, 0])
                                         (Suc i = length [apology, apology, apology]))])
                           (List.enumerate 0 [apology, apology, apology])))
   \<and> 1000 \<le> length (completeBuffer failingSynthesis capturing)
   \<and> writeFile failingSynthesis capturingPath (completeBuffer failingSynthesis capturing) = None
   \<and> transcribe failingSynthesis capturingPath = Inr (js ''hello'')
   \<and> chatStream failingSynthesis (js ''hello'') = Inr apologyDeltas
   \<and> 1 < length [apology, apology, apology]
   \<and> speech failingSynthesis 0 apology = Inr [0, 0, 0]
   \<and> speech failingSynthesis 1 ([apology, apology, apology] ! 1) = Inl (js ''Rate limit reached'')
   \<and> onMessage failingSynthesis capturing UserAudioEnd =
           Some (idle,
             [WriteFile capturingPath (completeBuffer failingSynthesis capturing),
              Transcribe capturingPath, ChatCreate (js ''hello'')]
             @ concat (map (\<lambda>(i, segment).
                              [SpeechCreate segment, SpeechAudio [0, 0, 0],
                               WsSend (AiAudio (toBase64 failingSynthesis [0, 0, 0]) False)])
                           (List.enumerate 0 (take 1 [apology, apology, apology])))
             @ [SpeechCreate ([apology, apology, apology] ! 1),
                WsSend (ErrorMessage (js ''Rate limit reached''))])"
proof -
  let ?id = "js ''7d444840-9dc0-11d1-b245-5ffdce74fad2''"
  have s: "createOptimalTTSChunks (concat (map deltaContent apologyDeltas)) 50
        = Some [apology, apology, apology]"
    by (simp only: apology_reply apology_segments)
  have g: "1000 \<le> length (completeBuffer exampleServices capturing)"
    by (rule capturing_big) simp
  have w: "writeFile exampleServices (filePathOf ?id)
             (completeBuffer exampleServices capturing) = None"
    by (rule example_fields)
  have t: "transcribe exampleServices (filePathOf ?id) = Inr (js ''hello'')"
    by (rule example_fields)
  have c: "chatStream exampleServices (js ''hello'') = Inr apologyDeltas"
    by (rule example_fields)
  have a: "\<forall>(i, segment)\<in>set (List.enumerate 0 [apology, apology, apology]).
          speech exampleServices i segment = Inr ((\<lambda>i. [0, 0, 0]) i)"
    by (simp add: example_fields)
  have sp: "speech exampleServices i apology = Inr [0, 0, 0]" for i
    by (rule example_fields)
  note e1 = one_ai_audio_per_segment[OF capturing_active g w t c s, of "\<lambda>i. [0, 0, 0]",
      THEN conjunct1, THEN mp, OF a, unfolded capturing_path]
  have g2: "1000 \<le> length (completeBuffer failingSynthesis capturing)"
    by (rule capturing_big) (rule failingSynthesis_fields)
  have w2: "writeFile failingSynthesis (filePathOf ?id)
             (completeBuffer failingSynthesis capturing) = None"
    by (rule failingSynthesis_fields)
  have t2: "transcribe failingSynthesis (filePathOf ?id) = Inr (js ''hello'')"
    by (rule failingSynthesis_fields)
  have c2: "chatStream failingSynthesis (js ''hello'') = Inr apologyDeltas"
    by (rule failingSynthesis_fields)
  have k2: "1 < length [apology, apology, apology]" by simp
  have p2: "speech failingSynthesis 0 apology = Inr [0, 0, 0]"
    by (rule failingSynthesis_fields)
  have f2: "speech failingSynthesis 1 ([apology, apology, apology] ! 1)
              = Inl (js ''Rate limit reached'')"
    by (simp add: failingSynthesis_fields)
  have a2: "\<forall>(i, segment)\<in>set (List.enumerate 0 (take 1 [apology, apology, apology])).
          speech failingSynthesis i segment = Inr ((\<lambda>i. [0, 0, 0]) i)"
    by (simp add: failingSynthesis_fields)
  note e2 = one_ai_audio_per_segment[OF capturing_active g2 w2 t2 c2 s, of "\<lambda>i. [0, 0, 0]",
      THEN conjunct2, rule_format, of 1 "js ''Rate limit reached''",
      OF conjI[OF k2 conjI[OF f2 a2]], unfolded capturing_path]
  show ?thesis
    using capturing_active g w t c s sp e1 g2 w2 t2 c2 k2 p2 f2 e2
    by (simp only: capturing_path simp_thms)
qed

text \<open>
  Claim C10: when the reply text of a turn is empty or white space only, the chunker
  returns no segment and the handler, after the file, the transcription and the
  generation, does nothing more outside: no speech request, no \<open>ai_audio\<close> message and so
  none with \<open>done\<close> set; the session is idle afterwards.
\<close>

theorem blank_reply_sends_no_audio:
  assumes "currentSessionId s = Some fileId" "fileId \<noteq> []" "\<not> inProgress s"
    "1000 \<le> length (completeBuffer sv s)"
    "writeFile sv (filePathOf fileId) (completeBuffer sv s) = None"
    "transcribe sv (filePathOf fileId) = Inr transcript"
    "chatStream sv transcript = Inr deltas"
    "trim (concat (map deltaContent deltas)) = []"
  shows "createOptimalTTSChunks (concat (map deltaContent deltas)) 50 = Some []
         \<and> onMessage sv s UserAudioEnd =
             Some (idle, [WriteFile (filePathOf fileId) (completeBuffer sv s),
                          Transcribe (filePathOf fileId), ChatCreate transcript])"
proof -
  have c: "createOptimalTTSChunks (concat (map deltaContent deltas)) 50 = Some []"
    using assms(8) by (simp add: createOptimalTTSChunks_def)
  have "turnPipeline sv (filePathOf fileId) (completeBuffer sv s) =
          Some ([WriteFile (filePathOf fileId) (completeBuffer sv s),
                 Transcribe (filePathOf fileId), ChatCreate transcript], None)"
    using assms(5-7) c by (simp add: turnPipeline_def)
  from end_runs_pipeline[OF assms(1-4) this] c show ?thesis by simp
qed

theorem blank_reply_sends_no_audio_witness:
  "currentSessionId capturing = Some (js ''7d444840-9dc0-11d1-b245-5ffdce74fad2'')
   \<and> js ''7d444840-9dc0-11d1-b245-5ffdce74fad2'' \<noteq> []
   \<and> \<not> inProgress capturing
   \<and> 1000 \<le> length (completeBuffer blankServices capturing)
   \<and> writeFile blankServices capturingPath (completeBuffer blankServices capturing) = None
   \<and> transcribe blankServices capturingPath = Inr (js ''hello'')
   \<and> chatStream blankServices (js ''hello'') = Inr [Some [10], None, Some (js ''  '')]
   \<and> trim (concat (map deltaContent [Some [10], None, Some (js ''  '')])) = []
   \<and> createOptimalTTSChunks (concat (map deltaContent [Some [10], None, Some (js ''  '')])) 50
        = Some []
   \<and> onMessage blankServices capturing UserAudioEnd =
        Some (idle, [WriteFile capturingPath (completeBuffer blankServices capturing),
                     Transcribe capturingPath, ChatCreate (js ''hello'')])"
proof -
  have g: "1000 \<le> length (completeBuffer blankServices capturing)"
    by (rule capturing_big) (rule blankServices_fields)
  have w: "writeFile blankServices (filePathOf (js ''7d444840-9dc0-11d1-b245-5ffdce74fad2''))
             (completeBuffer blankServices capturing) = None"
    by (rule blankServices_fields)
  have t: "transcribe blankServices (filePathOf (js ''7d444840-9dc0-11d1-b245-5ffdce74fad2''))
             = Inr (js ''hello'')"
    by (rule blankServices_fields)
  have c: "chatStream blankServices (js ''hello'') = Inr [Some [10], None, Some (js ''  '')]"
    by (rule blankServices_fields)
  have b: "trim (concat (map deltaContent [Some [10], None, Some (js ''  '')])) = []"
    by (simp add: deltaContent_def js_def trim_def isSpace_def)
  note e = blank_reply_sends_no_audio[OF capturing_active g w t c b, unfolded capturing_path]
  show ?thesis
    using capturing_active g w t c b e by (simp only: capturing_path simp_thms)
qed

section \<open>Properties of the playback queue\<close>

lemma consistent_cases:
  assumes "consistent p"
  obtains
    (idle) "pending p = []" "live p = []" "\<not> isPlaying p" "audioQueue p = []"
      "foldl follow (Some Nothing) (trace p) = Some Nothing"
  | (decoding) c where "pending p = [c]" "live p = []" "isPlaying p"
      "foldl follow (Some Nothing) (trace p) = Some (Decoding c)"
  | (playing) n c where "pending p = []" "live p = [(n, c)]" "isPlaying p"
      "foldl follow (Some Nothing) (trace p) = Some (Playing c)"
  using assms unfolding consistent_def by blast

lemma consistent_initial: "consistent initialPlayer"
  by (simp add: consistent_def initialPlayer_def)

lemma shifted_append: "shifted (as @ bs) = shifted as @ shifted bs"
  by (induction as rule: shifted.induct) simp_all

lemma queued_append: "queued (es @ fs) = queued es @ queued fs"
  by (induction es rule: queued.induct) simp_all

text \<open>\<open>processNextAudio\<close> when nothing is in flight.\<close>

lemma processNextAudio_consistent:
  assumes "pending p = []" "live p = []" "isPlaying p"
    "foldl follow (Some Nothing) (trace p) = Some Nothing"
  shows "consistent (processNextAudio p)"
    and "shifted (trace (processNextAudio p)) @ audioQueue (processNextAudio p)
           = shifted (trace p) @ audioQueue p"
  using assms
  by (auto simp: processNextAudio_def consistent_def shifted_append split: list.splits)

lemma step_consistent:
  assumes "consistent p" "e \<noteq> StopPlayback"
  shows "consistent (step p e)
         \<and> shifted (trace (step p e)) @ audioQueue (step p e)
             = shifted (trace p) @ audioQueue p @ queued [e]"
proof (cases e)
  case (QueueAudio b)
  from assms(1) show ?thesis
  proof (cases rule: consistent_cases)
    case idle
    let ?p1 = "p\<lparr>audioQueue := audioQueue p @ [b], isPlaying := True,
                    trace := trace p @ [OnPlaybackStart]\<rparr>"
    have s: "step p e = processNextAudio ?p1"
      using idle QueueAudio by (simp add: queueAudio_def Let_def)
    have "consistent (processNextAudio ?p1)"
      by (rule processNextAudio_consistent) (use idle in simp_all)
    moreover have "shifted (trace (processNextAudio ?p1)) @ audioQueue (processNextAudio ?p1)
           = shifted (trace ?p1) @ audioQueue ?p1"
      by (rule processNextAudio_consistent) (use idle in simp_all)
    ultimately show ?thesis unfolding s using QueueAudio by (simp add: shifted_append)
  next
    case (decoding c)
    then show ?thesis using QueueAudio
      by (simp add: queueAudio_def Let_def consistent_def)
  next
    case (playing n c)
    then show ?thesis using QueueAudio
      by (simp add: queueAudio_def Let_def consistent_def)
  qed
next
  case StopPlayback
  with assms(2) show ?thesis by simp
next
  case (DecodeResolved k)
  from assms(1) show ?thesis
  proof (cases rule: consistent_cases)
    case idle
    then show ?thesis using DecodeResolved assms(1) by (simp add: decodeResolved_def)
  next
    case (decoding c)
    then show ?thesis using DecodeResolved assms(1)
      by (cases k) (simp_all add: decodeResolved_def consistent_def shifted_append)
  next
    case (playing n c)
    then show ?thesis using DecodeResolved assms(1) by (simp add: decodeResolved_def)
  qed
next
  case (DecodeRejected k)
  from assms(1) show ?thesis
  proof (cases rule: consistent_cases)
    case idle
    then show ?thesis using DecodeRejected assms(1) by (simp add: decodeRejected_def)
  next
    case (decoding c)
    show ?thesis
    proof (cases k)
      case 0
      let ?p1 = "p\<lparr>pending := [], trace := trace p @ [DecodeFailure c]\<rparr>"
      have s: "step p e = processNextAudio ?p1"
        using decoding DecodeRejected 0 by (simp add: decodeRejected_def)
      have "consistent (processNextAudio ?p1)"
        by (rule processNextAudio_consistent) (use decoding in simp_all)
      moreover have "shifted (trace (processNextAudio ?p1)) @ audioQueue (processNextAudio ?p1)
           = shifted (trace ?p1) @ audioQueue ?p1"
        by (rule processNextAudio_consistent) (use decoding in simp_all)
      ultimately show ?thesis unfolding s using DecodeRejected by (simp add: shifted_append)
    next
      case (Suc k')
      then show ?thesis using decoding DecodeRejected assms(1) by (simp add: decodeRejected_def)
    qed
  next
    case (playing n c)
    then show ?thesis using DecodeRejected assms(1) by (simp add: decodeRejected_def)
  qed
next
  case (Ended m)
  from assms(1) show ?thesis
  proof (cases rule: consistent_cases)
    case idle
    then show ?thesis using Ended assms(1) by (simp add: onended_def)
  next
    case (decoding c)
    then show ?thesis using Ended assms(1) by (simp add: onended_def)
  next
    case (playing n c)
    show ?thesis
    proof (cases "m = n")
      case True
      let ?p1 = "p\<lparr>live := [], currentSource := None, trace := trace p @ [SourceEnded n c]\<rparr>"
      have s: "step p e = processNextAudio ?p1"
        using playing Ended True by (simp add: onended_def)
      have "consistent (processNextAudio ?p1)"
        by (rule processNextAudio_consistent) (use playing in simp_all)
      moreover have "shifted (trace (processNextAudio ?p1)) @ audioQueue (processNextAudio ?p1)
           = shifted (trace ?p1) @ audioQueue ?p1"
        by (rule processNextAudio_consistent) (use playing in simp_all)
      ultimately show ?thesis unfolding s using Ended by (simp add: shifted_append)
    next
      case False
      then show ?thesis using playing Ended assms(1) by (simp add: onended_def)
    qed
  qed
qed

lemma run_consistent:
  "StopPlayback \<notin> set events \<Longrightarrow>
   consistent (run initialPlayer events)
   \<and> shifted (trace (run initialPlayer events)) @ audioQueue (run initialPlayer events)
       = queued events"
proof (induction events rule: rev_induct)
  case Nil
  show ?case by (simp add: run_def consistent_initial) (simp add: initialPlayer_def)
next
  case (snoc e events)
  then have ih: "consistent (run initialPlayer events)"
    "shifted (trace (run initialPlayer events)) @ audioQueue (run initialPlayer events)
       = queued events"
    and ne: "e \<noteq> StopPlayback"
    by auto
  have r: "run initialPlayer (events @ [e]) = step (run initialPlayer events) e"
    by (simp add: run_def)
  from step_consistent[OF ih(1) ne] ih(2) show ?case
    unfolding r by (simp add: queued_append)
qed

lemma consistent_oneAtATime: "consistent p \<Longrightarrow> oneAtATime (trace p)"
  by (erule consistent_cases) (simp_all add: oneAtATime_def)

lemmas player_eval = run_def queueAudio_def processNextAudio_def decodeResolved_def
  decodeRejected_def stopPlayback_def onended_def initialPlayer_def Let_def

lemma stopPlayback_idle:
  "\<not> isPlaying p \<Longrightarrow> currentSource p = None \<Longrightarrow> audioQueue p = [] \<Longrightarrow> stopPlayback p = p"
  by (simp add: stopPlayback_def)

lemma stopPlayback_playing:
  "isPlaying p \<Longrightarrow> currentSource p = Some n \<Longrightarrow>
   stopPlayback p = p\<lparr>currentSource := None, audioQueue := [], isPlaying := False,
                      trace := trace p @ [SourceStop n, OnPlaybackEnd]\<rparr>"
  by (simp add: stopPlayback_def)

text \<open>
  Claim C3: \<open>stop()\<close> while idle does nothing and fires no playback-end signal; \<open>stop()\<close>
  while a segment plays halts it, empties the queue and fires the playback-end signal
  exactly once. The first part holds, and the call of \<open>stopPlayback\<close> itself fires the
  signal once. But \<open>stopPlayback\<close> leaves the \<open>onended\<close> handler on the source it
  stops: when the browser dispatches \<open>ended\<close> to the stopped source, the handler calls
  \<open>processNextAudio\<close>, which finds the queue empty and fires the signal a second time.
\<close>

theorem stop_fires_playback_end_twice:
  "stopPlayback initialPlayer = initialPlayer
   \<and> trace (run initialPlayer [QueueAudio (js ''AAAA''), DecodeResolved 0, StopPlayback]) =
       [OnPlaybackStart, Shift (js ''AAAA''), SourceStart 0 (js ''AAAA''),
        SourceStop 0, OnPlaybackEnd]
   \<and> trace (run initialPlayer stopEvents) =
       [OnPlaybackStart, Shift (js ''AAAA''), SourceStart 0 (js ''AAAA''),
        SourceStop 0, OnPlaybackEnd, SourceEnded 0 (js ''AAAA''), OnPlaybackEnd]"
  by (simp add: stopEvents_def player_eval)

text \<open>
  Without \<open>stopPlayback\<close> the queue is first in, first out and one segment at a time,
  whatever the order in which segments are queued and the browser reports decoding and
  the end of playback.
\<close>

lemma fifo_without_stop:
  assumes "StopPlayback \<notin> set events"
  shows "shifted (trace (run initialPlayer events)) @ audioQueue (run initialPlayer events)
           = queued events
         \<and> oneAtATime (trace (run initialPlayer events))"
  using run_consistent[OF assms] consistent_oneAtATime by blast

lemma fifo_without_stop_example:
  "StopPlayback \<notin> set abcEvents
   \<and> shifted (trace (run initialPlayer abcEvents)) @ audioQueue (run initialPlayer abcEvents)
       = queued abcEvents
   \<and> oneAtATime (trace (run initialPlayer abcEvents))
   \<and> trace (run initialPlayer abcEvents) =
       [OnPlaybackStart, Shift (js ''AAAA''), SourceStart 0 (js ''AAAA''),
        SourceEnded 0 (js ''AAAA''), Shift (js ''BBBB''), SourceStart 1 (js ''BBBB''),
        SourceEnded 1 (js ''BBBB''), Shift (js ''CCCC''), DecodeFailure (js ''CCCC''),
        OnPlaybackEnd]"
proof -
  have a: "StopPlayback \<notin> set abcEvents" by (simp add: abcEvents_def)
  have t: "trace (run initialPlayer abcEvents) =
       [OnPlaybackStart, Shift (js ''AAAA''), SourceStart 0 (js ''AAAA''),
        SourceEnded 0 (js ''AAAA''), Shift (js ''BBBB''), SourceStart 1 (js ''BBBB''),
        SourceEnded 1 (js ''BBBB''), Shift (js ''CCCC''), DecodeFailure (js ''CCCC''),
        OnPlaybackEnd]"
    by (simp add: abcEvents_def player_eval)
  from fifo_without_stop[OF a] a t show ?thesis by (simp only: simp_thms)
qed

text \<open>
  The queue also moves on: when the source that plays reports its end, or the segment
  that is decoded is rejected, the head of the queue is taken; a segment whose decoding
  succeeds is started.
\<close>

lemma next_segment_taken:
  "live p = [(n, d)] \<Longrightarrow> audioQueue p = c # rest \<Longrightarrow>
     pending (step p (Ended n)) = pending p @ [c] \<and> audioQueue (step p (Ended n)) = rest
     \<and> trace (step p (Ended n)) = trace p @ [SourceEnded n d, Shift c]"
  "pending p = [d] \<Longrightarrow> audioQueue p = c # rest \<Longrightarrow>
     pending (step p (DecodeRejected 0)) = [c] \<and> audioQueue (step p (DecodeRejected 0)) = rest
     \<and> trace (step p (DecodeRejected 0)) = trace p @ [DecodeFailure d, Shift c]"
  "pending p = [d] \<Longrightarrow>
     pending (step p (DecodeResolved 0)) = []
     \<and> live (step p (DecodeResolved 0)) = live p @ [(created p, d)]
     \<and> trace (step p (DecodeResolved 0)) = trace p @ [SourceStart (created p) d]"
  by (simp_all add: onended_def decodeRejected_def decodeResolved_def processNextAudio_def)

text \<open>
  Claim C9: the segments play in the order in which they were queued, each taken from
  the queue only when the one before it has played to its end or could not be decoded.
  The code breaks this after \<open>stopPlayback\<close>, which neither cancels the call of
  \<open>processNextAudio\<close> that is decoding nor takes the \<open>onended\<close> handler from the source
  it stops. In the first run below the first segment is stopped while it is decoded:
  the next one is taken from the queue at once, and both are started and play at the
  same time. In the second run the first segment is stopped while it plays: the
  \<open>ended\<close> event of its source takes the third segment from the queue while the second
  is still decoded, and the second and the third play at the same time.
\<close>

theorem playback_overlaps_after_stop:
  "trace (run initialPlayer stopWhileDecoding) =
     [OnPlaybackStart, Shift (js ''AAAA''), OnPlaybackEnd,
      OnPlaybackStart, Shift (js ''BBBB''),
      SourceStart 0 (js ''AAAA''), SourceStart 1 (js ''BBBB'')]
   \<and> live (run initialPlayer stopWhileDecoding) = [(0, js ''AAAA''), (1, js ''BBBB'')]
   \<and> trace (run initialPlayer stopWhilePlaying) =
     [OnPlaybackStart, Shift (js ''AAAA''), SourceStart 0 (js ''AAAA''),
      SourceStop 0, OnPlaybackEnd,
      OnPlaybackStart, Shift (js ''BBBB''),
      SourceEnded 0 (js ''AAAA''), Shift (js ''CCCC''),
      SourceStart 1 (js ''BBBB''), SourceStart 2 (js ''CCCC'')]
   \<and> live (run initialPlayer stopWhilePlaying) = [(1, js ''BBBB''), (2, js ''CCCC'')]"
  by (simp add: stopWhileDecoding_def stopWhilePlaying_def player_eval)

end
